theory Spec2Isabelle
  imports Main "HOL-Library.Word" "HOL-Library.FSet"
begin

unbundle bit_operations_syntax

section \<open>Data model\<close>

text \<open>
  Go strings are byte sequences; they are modelled as \<open>string\<close> (a list of 8-bit
  characters), so \<open>length\<close> is Go's \<open>len\<close>.

  \<open>Key.Date\<close> is a \<open>time.Time\<close> that the data model restricts to a calendar day at
  00:00:00 UTC; it is modelled by its civil date.  \<open>Equal\<close> and \<open>Before\<close> compare
  instants, which for UTC midnights is the lexicographic order on (year, month, day).
\<close>

record Time =
  year :: int
  month :: nat
  day :: nat

definition Equal :: "Time \<Rightarrow> Time \<Rightarrow> bool" where
  "Equal t u = (year t = year u \<and> month t = month u \<and> day t = day u)"

definition Before :: "Time \<Rightarrow> Time \<Rightarrow> bool" where
  "Before t u =
     (year t < year u \<or>
      (year t = year u \<and> (month t < month u \<or> (month t = month u \<and> day t < day u))))"

record Key =
  Domain :: string
  Country :: string
  Date :: Time

text \<open>\<open>type Value struct { v string }\<close>; the selector is the method \<open>String()\<close>.\<close>

datatype Value = Value (String: string)

text \<open>\<open>Report\<close> embeds \<open>Key\<close>, so Go's \<open>report.Domain\<close> is \<open>Domain (Key report)\<close>.\<close>

record Report =
  Key :: Key
  Values :: "Value list"
  bin :: string

text \<open>
  Go's errors are values that carry a message; each \<open>errors.New\<close> and \<open>fmt.Errorf\<close> of the
  code is a constructor here, with the values its message is formatted from.  A function
  that can also panic returns a \<open>failure\<close>.
\<close>

datatype error =
    ValueContainsDot string
  | ValueNotLowerCase string
  | ValueTooLong string
  | ValueNotASCII string
  | NameNotASCII
  | NameMissingSuffix
  | NameTooShort
  | TimeParseError string
  | OldDate Time Time
  | CacheFull
  | RandError
  | NoBins

datatype failure = Error error | Panic string

section \<open>Server: the dam and \<open>Filter\<close>\<close>

text \<open>
  \<open>bins\<close> is a \<open>map[string]observed\<close> used as a set, and \<open>len(d.bins)\<close> is its
  cardinality.  A \<open>*dam\<close> is a \<open>dam option\<close>: \<open>None\<close> is the nil pointer.
\<close>

record dam =
  bins :: "string set"
  observations :: "Value list list"

text \<open>
  \<open>(d *dam) add(report, threshold)\<close>.  The method mutates \<open>*d\<close> and returns a slice that
  may be nil; the model returns the dam after the call together with the slice
  (\<open>None\<close> for nil).  The nil test on \<open>d\<close> comes first, then the test for a missing bin.
\<close>

definition add :: "dam option \<Rightarrow> Report \<Rightarrow> int \<Rightarrow> failure + (dam option \<times> Report list option)" where
  "add d report threshold =
     (case d of
        None \<Rightarrow> Inr (None, Some [report])
      | Some d0 \<Rightarrow>
          if bin report = [] then Inl (Panic ''Report is missing bin'')
          else
            let d1 = d0\<lparr>bins := insert (bin report) (bins d0)\<rparr>;
                d2 = d1\<lparr>observations := observations d1 @ [Values report]\<rparr>
            in if threshold \<le> int (card (bins d2))
               then Inr (Some (d2\<lparr>observations := []\<rparr>),
                         Some (map (\<lambda>v. \<lparr>Key = Key report, Values = v, bin = []\<rparr>)
                                   (observations d2)))
               else Inr (Some d2, None))"

text \<open>
  One iteration of the loop \<open>for report := range in\<close> of \<open>Filter\<close>, on the local map
  \<open>pending :: map[Key]*dam\<close>.  A key can be absent, present with a dam, or present with
  nil (\<open>Some None\<close>).  The dam is shared between the map and \<open>d\<close> by pointer, so the
  mutation that \<open>add\<close> performs is written back to the map.  The result is the map after
  the iteration and the reports sent on \<open>out\<close>, in order.
\<close>

definition new_dam :: dam where
  "new_dam = \<lparr>bins = {}, observations = []\<rparr>"

definition Filter_step ::
  "int \<Rightarrow> (Key \<rightharpoonup> dam option) \<Rightarrow> Report \<Rightarrow> failure + ((Key \<rightharpoonup> dam option) \<times> Report list)" where
  "Filter_step threshold pend report =
     (let (d, pend1) =
            (case pend (Key report) of
               Some d \<Rightarrow> (d, pend)
             | None \<Rightarrow> (Some new_dam, pend(Key report \<mapsto> Some new_dam)))
      in case add d report threshold of
           Inl e \<Rightarrow> Inl e
         | Inr (d', released) \<Rightarrow>
             (let pend2 = (case d' of None \<Rightarrow> pend1 | Some _ \<Rightarrow> pend1(Key report \<mapsto> d'))
              in case released of
                   None \<Rightarrow> Inr (pend2, [])
                 | Some rs \<Rightarrow>
                     Inr (if d \<noteq> None then pend2(Key report \<mapsto> None) else pend2, rs)))"

text \<open>
  The goroutine of \<open>Filter\<close>: it consumes the input channel until it is closed, then
  closes \<open>out\<close>.  A panic in \<open>add\<close> ends the goroutine (and the program) without closing
  \<open>out\<close>; what was sent before stays sent.  The result is everything sent on \<open>out\<close> and
  how the goroutine ended.
\<close>

datatype ending = Closed | Panicked

fun Filter_loop :: "int \<Rightarrow> (Key \<rightharpoonup> dam option) \<Rightarrow> Report list \<Rightarrow> Report list \<times> ending" where
  "Filter_loop threshold pend [] = ([], Closed)"
| "Filter_loop threshold pend (report # rest) =
     (case Filter_step threshold pend report of
        Inl e \<Rightarrow> ([], Panicked)
      | Inr (pend', released) \<Rightarrow>
          (let (out, e) = Filter_loop threshold pend' rest in (released @ out, e)))"

definition Filter :: "Report list \<Rightarrow> int \<Rightarrow> Report list \<times> ending" where
  "Filter inp threshold = Filter_loop threshold Map.empty inp"

text \<open>
  The map \<open>pending\<close> after the goroutine has consumed a list of reports (\<open>Inl\<close> if it
  panicked on the way): the same iteration as \<open>Filter_loop\<close>, keeping the state instead of
  the output.
\<close>

fun Filter_state ::
  "int \<Rightarrow> (Key \<rightharpoonup> dam option) \<Rightarrow> Report list \<Rightarrow> failure + (Key \<rightharpoonup> dam option)" where
  "Filter_state threshold pend [] = Inr pend"
| "Filter_state threshold pend (report # rest) =
     (case Filter_step threshold pend report of
        Inl e \<Rightarrow> Inl e
      | Inr (pend', released) \<Rightarrow> Filter_state threshold pend' rest)"

text \<open>The distinct bin strings that accompany a key in a stream.\<close>

definition bins_of :: "Key \<Rightarrow> Report list \<Rightarrow> string set" where
  "bins_of k inp = set (map bin (filter (\<lambda>r. Key r = k) inp))"

text \<open>
  Invariant of a key that stays below the threshold: it has not burst, and the bins its dam
  holds together with the bins still to come number fewer than \<open>k\<close>.
\<close>

definition held_below :: "int \<Rightarrow> (Key \<rightharpoonup> dam option) \<Rightarrow> Report list \<Rightarrow> Key \<Rightarrow> bool" where
  "held_below k pend inp key =
     (case pend key of
        None \<Rightarrow> int (card (bins_of key inp)) < k
      | Some None \<Rightarrow> False
      | Some (Some d) \<Rightarrow> finite (bins d) \<and> int (card (bins d \<union> bins_of key inp)) < k)"

text \<open>The test fixtures of the repository (\<open>testDate\<close>, the key of \<open>TestFilter\<close>).\<close>

definition testDate :: Time where
  "testDate = \<lparr>year = 1413, month = 12, day = 11\<rparr>"

definition testKey :: Key where
  "testKey = \<lparr>Domain = ''d1.example'', Country = ''zz'', Date = testDate\<rparr>"

definition testReport :: "string \<Rightarrow> string \<Rightarrow> Report" where
  "testReport x b = \<lparr>Key = testKey, Values = [Value x], bin = b\<rparr>"

text \<open>What a consumer of the output stream learns from a report: its key and its values.\<close>

definition key_values :: "Report \<Rightarrow> Key \<times> Value list" where
  "key_values r = (Key r, Values r)"

section \<open>Strings and values\<close>

text \<open>
  The functions of Go's \<open>strings\<close> package that the code calls, on byte strings.
  Ranging over a Go string yields a rune of at least 128 exactly when a byte of at least 128
  is met (a multi-byte code point, or \<open>utf8.RuneError\<close> for an invalid byte), so the loops
  \<open>for _, runeValue := range s { if runeValue >= 128 ... }\<close> test for such a byte.
\<close>

definition isASCII :: "char \<Rightarrow> bool" where
  "isASCII c = ((of_char c :: nat) < 128)"

definition isUpper :: "char \<Rightarrow> bool" where
  "isUpper c = (65 \<le> (of_char c :: nat) \<and> (of_char c :: nat) \<le> 90)"

definition lowerASCII :: "char \<Rightarrow> char" where
  "lowerASCII c = (if isUpper c then char_of ((of_char c :: nat) + 32) else c)"

text \<open>
  UTF-8, as Go's \<open>unicode/utf8\<close> reads and writes it.  \<open>DecodeRune\<close> returns the rune at
  the head of a string and the number of bytes it takes; a byte that does not start a
  well-formed sequence is read as \<open>RuneError\<close> (U+FFFD) of width 1.  \<open>EncodeRune\<close> writes a
  rune, and writes \<open>RuneError\<close> for a surrogate or a value beyond U+10FFFF.
\<close>

definition RuneError :: nat where
  "RuneError = 0xFFFD"

definition inRange :: "char \<Rightarrow> nat \<Rightarrow> nat \<Rightarrow> bool" where
  "inRange c lo hi = (lo \<le> (of_char c :: nat) \<and> (of_char c :: nat) \<le> hi)"

definition cont :: "char \<Rightarrow> nat" where
  "cont c = (of_char c :: nat) - 0x80"

definition DecodeRune :: "string \<Rightarrow> nat \<times> nat" where
  "DecodeRune s =
     (case s of
        [] \<Rightarrow> (RuneError, 0)
      | c0 # rest \<Rightarrow>
          let b0 = (of_char c0 :: nat)
          in if b0 < 0x80 then (b0, 1)
             else if b0 < 0xC2 \<or> 0xF4 < b0 then (RuneError, 1)
             else if b0 < 0xE0 then
               (case rest of
                  c1 # _ \<Rightarrow>
                    if inRange c1 0x80 0xBF then ((b0 - 0xC0) * 64 + cont c1, 2)
                    else (RuneError, 1)
                | _ \<Rightarrow> (RuneError, 1))
             else if b0 < 0xF0 then
               (case rest of
                  c1 # c2 # _ \<Rightarrow>
                    if inRange c1 (if b0 = 0xE0 then 0xA0 else 0x80)
                                  (if b0 = 0xED then 0x9F else 0xBF) \<and>
                       inRange c2 0x80 0xBF
                    then ((b0 - 0xE0) * 4096 + cont c1 * 64 + cont c2, 3)
                    else (RuneError, 1)
                | _ \<Rightarrow> (RuneError, 1))
             else
               (case rest of
                  c1 # c2 # c3 # _ \<Rightarrow>
                    if inRange c1 (if b0 = 0xF0 then 0x90 else 0x80)
                                  (if b0 = 0xF4 then 0x8F else 0xBF) \<and>
                       inRange c2 0x80 0xBF \<and> inRange c3 0x80 0xBF
                    then ((b0 - 0xF0) * 262144 + cont c1 * 4096 + cont c2 * 64 + cont c3, 4)
                    else (RuneError, 1)
                | _ \<Rightarrow> (RuneError, 1)))"

definition EncodeRune :: "nat \<Rightarrow> string" where
  "EncodeRune r =
     (if r \<le> 0x7F then [char_of r]
      else if r \<le> 0x7FF then [char_of (0xC0 + r div 64), char_of (0x80 + r mod 64)]
      else if 0x10FFFF < r \<or> (0xD800 \<le> r \<and> r \<le> 0xDFFF)
      then [CHR 0xEF, CHR 0xBF, CHR 0xBD]
      else if r \<le> 0xFFFF
      then [char_of (0xE0 + r div 4096), char_of (0x80 + r div 64 mod 64),
            char_of (0x80 + r mod 64)]
      else [char_of (0xF0 + r div 262144), char_of (0x80 + r div 4096 mod 64),
            char_of (0x80 + r div 64 mod 64), char_of (0x80 + r mod 64)])"

text \<open>
  \<open>strings.Map(mapping, s)\<close>, for a mapping that drops no rune: the runes of \<open>s\<close>, mapped
  and written back.  An invalid byte is read as \<open>RuneError\<close>, so what is written for it is
  the three bytes of the mapped \<open>RuneError\<close>.
\<close>

fun Map :: "(nat \<Rightarrow> nat) \<Rightarrow> string \<Rightarrow> string" where
  "Map mapping [] = []"
| "Map mapping (c # cs) =
     EncodeRune (mapping (fst (DecodeRune (c # cs)))) @
     Map mapping (drop (snd (DecodeRune (c # cs)) - 1) cs)"

text \<open>
  \<open>unicode.ToLower\<close> on a rune: below 128 it maps \<open>A\<close>..\<open>Z\<close> to \<open>a\<close>..\<open>z\<close>; above, it
  looks the rune up in the Unicode case tables of the Go library, which are the parameter
  \<open>caseTable\<close> of the model.
\<close>

definition ToLowerRune :: "(nat \<Rightarrow> nat) \<Rightarrow> nat \<Rightarrow> nat" where
  "ToLowerRune caseTable r =
     (if r < 128 then (if 65 \<le> r \<and> r \<le> 90 then r + 32 else r) else caseTable r)"

text \<open>
  \<open>strings.ToLower\<close>.  On a string of ASCII bytes it maps \<open>A\<close>..\<open>Z\<close> to \<open>a\<close>..\<open>z\<close> and
  leaves the rest.  On any other string it is \<open>strings.Map(unicode.ToLower, s)\<close>.
\<close>

definition ToLower :: "(nat \<Rightarrow> nat) \<Rightarrow> string \<Rightarrow> string" where
  "ToLower caseTable s =
     (if list_all isASCII s then map lowerASCII s else Map (ToLowerRune caseTable) s)"

definition HasSuffix :: "string \<Rightarrow> string \<Rightarrow> bool" where
  "HasSuffix s suffix =
     (length suffix \<le> length s \<and> drop (length s - length suffix) s = suffix)"

definition TrimSuffix :: "string \<Rightarrow> string \<Rightarrow> string" where
  "TrimSuffix s suffix = (if HasSuffix s suffix then take (length s - length suffix) s else s)"

text \<open>
  \<open>strings.Split(s, ".")\<close> and \<open>strings.Join(labels, ".")\<close>, for a one-byte separator.
  \<open>Split\<close> of the empty string is the list of one empty string.
\<close>

fun Split :: "string \<Rightarrow> char \<Rightarrow> string list" where
  "Split [] sep = [[]]"
| "Split (c # cs) sep =
     (if c = sep then [] # Split cs sep
      else (case Split cs sep of
              [] \<Rightarrow> [[c]]
            | w # ws \<Rightarrow> (c # w) # ws))"

fun Join :: "string list \<Rightarrow> char \<Rightarrow> string" where
  "Join [] sep = []"
| "Join [x] sep = x"
| "Join (x # y # ys) sep = x @ sep # Join (y # ys) sep"

text \<open>Domains are always handled in lower case, without the trailing \<open>.\<close>.\<close>

definition normalizeForReport :: "(nat \<Rightarrow> nat) \<Rightarrow> string \<Rightarrow> string" where
  "normalizeForReport caseTable domain = ToLower caseTable (TrimSuffix domain ''.'')"

text \<open>\<open>NewValue\<close>: the four checks in the order of the code.\<close>

definition NewValue :: "(nat \<Rightarrow> nat) \<Rightarrow> string \<Rightarrow> error + Value" where
  "NewValue caseTable s =
     (if CHR ''.'' \<in> set s then Inl (ValueContainsDot s)
      else if ToLower caseTable s \<noteq> s then Inl (ValueNotLowerCase s)
      else if 63 < length s then Inl (ValueTooLong s)
      else if list_ex (\<lambda>c. \<not> isASCII c) s then Inl (ValueNotASCII s)
      else Inr (Value s))"

section \<open>Dates as text\<close>

text \<open>
  \<open>Time.Format\<close> and \<open>time.Parse\<close> of Go's library for the layout \<open>dateForm = "20060102"\<close>:
  the year in at least four digits (with a sign when negative), the month and the day in
  two digits.  \<open>Parse\<close> reads exactly four digits of year, two of month and two of day,
  accepts no further text, and checks the month and the day of the month.
\<close>

definition digit :: "nat \<Rightarrow> char" where
  "digit n = char_of (48 + n)"

definition isDigit :: "char \<Rightarrow> bool" where
  "isDigit c = (48 \<le> (of_char c :: nat) \<and> (of_char c :: nat) \<le> 57)"

definition digitValue :: "char \<Rightarrow> nat" where
  "digitValue c = of_char c - 48"

fun decimal :: "nat \<Rightarrow> string" where
  "decimal n = (if n < 10 then [digit n] else decimal (n div 10) @ [digit (n mod 10)])"

declare decimal.simps [simp del]

definition appendInt :: "int \<Rightarrow> nat \<Rightarrow> string" where
  "appendInt x width =
     (if x < 0 then ''-'' else []) @
     replicate (width - length (decimal (nat \<bar>x\<bar>))) (CHR ''0'') @ decimal (nat \<bar>x\<bar>)"

definition Format :: "Time \<Rightarrow> string" where
  "Format t = appendInt (year t) 4 @ appendInt (int (month t)) 2 @ appendInt (int (day t)) 2"

definition isLeap :: "int \<Rightarrow> bool" where
  "isLeap y = (y mod 4 = 0 \<and> (y mod 100 \<noteq> 0 \<or> y mod 400 = 0))"

definition daysIn :: "nat \<Rightarrow> int \<Rightarrow> nat" where
  "daysIn m y =
     (if m = 2 then (if isLeap y then 29 else 28)
      else if m = 4 \<or> m = 6 \<or> m = 9 \<or> m = 11 then 30 else 31)"

fun atoi :: "string \<Rightarrow> nat option" where
  "atoi [] = Some 0"
| "atoi (c # cs) =
     (if isDigit c
      then (case atoi cs of None \<Rightarrow> None | Some n \<Rightarrow> Some (digitValue c * 10 ^ length cs + n))
      else None)"

text \<open>\<open>getnum(s, fixed = true)\<close>: two digits and the rest of the text.\<close>

fun getnum :: "string \<Rightarrow> (nat \<times> string) option" where
  "getnum (a # b # rest) =
     (if isDigit a \<and> isDigit b then Some (digitValue a * 10 + digitValue b, rest) else None)"
| "getnum s = None"

definition Parse :: "string \<Rightarrow> error + Time" where
  "Parse s =
     (if length s < 4 \<or> \<not> isDigit (s ! 0) then Inl (TimeParseError s)
      else case atoi (take 4 s) of
        None \<Rightarrow> Inl (TimeParseError s)
      | Some y \<Rightarrow>
          (case getnum (drop 4 s) of
             None \<Rightarrow> Inl (TimeParseError s)
           | Some (m, s1) \<Rightarrow>
               if m = 0 \<or> 12 < m then Inl (TimeParseError s)
               else (case getnum s1 of
                  None \<Rightarrow> Inl (TimeParseError s)
                | Some (d, s2) \<Rightarrow>
                    if s2 \<noteq> [] then Inl (TimeParseError s)
                    else if d < 1 \<or> daysIn m (int y) < d then Inl (TimeParseError s)
                    else Inr \<lparr>year = int y, month = m, day = d\<rparr>)))"

section \<open>The name of a report, and its parser\<close>

text \<open>\<open>name(report, suffix)\<close>: the labels joined by dots.\<close>

definition name :: "Report \<Rightarrow> string \<Rightarrow> string" where
  "name report suffix =
     Join (map String (Values report) @
           [bin report, Country (Key report), Format (Date (Key report)),
            Domain (Key report), suffix]) (CHR ''.'')"

text \<open>
  \<open>Receiver\<close>.  Its field \<open>Values\<close> (an \<open>int\<close>) is named \<open>nValues\<close> here, since the field
  \<open>Values\<close> of \<open>Report\<close> has the name already.
\<close>

record Receiver =
  Suffix :: string
  nValues :: int

text \<open>The loop of \<open>ParseReport\<close> over \<open>valueLabels\<close>; it returns at the first error.\<close>

fun NewValues :: "(nat \<Rightarrow> nat) \<Rightarrow> string list \<Rightarrow> error + Value list" where
  "NewValues caseTable [] = Inr []"
| "NewValues caseTable (l # ls) =
     (case NewValue caseTable l of
        Inl e \<Rightarrow> Inl e
      | Inr x \<Rightarrow>
          (case NewValues caseTable ls of Inl e \<Rightarrow> Inl e | Inr xs \<Rightarrow> Inr (x # xs)))"

text \<open>
  \<open>r.Values\<close> is a 64-bit \<open>int\<close>, so the sum \<open>r.Values + 3\<close> wraps around.
\<close>

definition wrap64 :: "int \<Rightarrow> int" where
  "wrap64 x = (x + 2 ^ 63) mod 2 ^ 64 - 2 ^ 63"

text \<open>
  \<open>(r *Receiver) ParseReport(name)\<close>.  The slice expression \<open>labels[:r.Values]\<close> panics
  when \<open>r.Values\<close> is negative or beyond the length of \<open>labels\<close>.  Past it, \<open>labels\<close> holds
  at least four entries after the values when the sum did not wrap; when it did, the reads
  of the bin, the country and the date can be out of range, and panic.
\<close>

definition ParseReport :: "(nat \<Rightarrow> nat) \<Rightarrow> Receiver \<Rightarrow> string \<Rightarrow> failure + Report" where
  "ParseReport caseTable r name0 =
     (if list_ex (\<lambda>c. \<not> isASCII c) name0 then Inl (Error NameNotASCII)
      else
        let name1 = normalizeForReport caseTable name0;
            suffix = normalizeForReport caseTable (Suffix r)
        in if \<not> HasSuffix name1 suffix then Inl (Error NameMissingSuffix)
           else
             let name2 = TrimSuffix name1 suffix;
                 name3 = TrimSuffix name2 ''.'';
                 labels = Split name3 (CHR ''.'')
             in if int (length labels) \<le> wrap64 (nValues r + 3) then Inl (Error NameTooShort)
                else if nValues r < 0 \<or> int (length labels) < nValues r
                then Inl (Panic ''slice bounds out of range'')
                else
                  let valueLabels = take (nat (nValues r)) labels;
                      labels1 = drop (nat (nValues r)) labels
                  in case NewValues caseTable valueLabels of
                       Inl e \<Rightarrow> Inl (Error e)
                     | Inr vals \<Rightarrow>
                         if length labels1 < 3 then Inl (Panic ''index out of range'')
                         else
                         (case Parse (labels1 ! 2) of
                            Inl e \<Rightarrow> Inl (Error e)
                          | Inr date \<Rightarrow>
                              Inr \<lparr>Key = \<lparr>Domain = Join (drop 3 labels1) (CHR ''.''),
                                           Country = labels1 ! 1, Date = date\<rparr>,
                                   Values = vals, bin = labels1 ! 0\<rparr>))"

text \<open>
  The invariants of the data model on a report: \<open>Domain\<close> is lower-case ASCII without a
  trailing dot, \<open>Country\<close> is a two-character lower-case code (a label: it has no dot),
  \<open>Date\<close> is a day of the calendar, every value is one that \<open>NewValue\<close> returns, and the bin
  is a non-empty label over the base-32 alphabet (the constant \<open>base32\<close> of the client).
\<close>

definition base32 :: string where
  "base32 = ''abcdefghijklmnopqrstuvwxyz234567''"

definition lowerCaseASCII :: "string \<Rightarrow> bool" where
  "lowerCaseASCII s = list_all (\<lambda>c. isASCII c \<and> \<not> isUpper c) s"

definition civilDate :: "Time \<Rightarrow> bool" where
  "civilDate t =
     (1 \<le> month t \<and> month t \<le> 12 \<and> 1 \<le> day t \<and> day t \<le> daysIn (month t) (year t))"

definition ReportInvariants :: "(nat \<Rightarrow> nat) \<Rightarrow> Report \<Rightarrow> bool" where
  "ReportInvariants caseTable r =
     (lowerCaseASCII (Domain (Key r)) \<and> \<not> HasSuffix (Domain (Key r)) ''.'' \<and>
      length (Country (Key r)) = 2 \<and> lowerCaseASCII (Country (Key r)) \<and>
      CHR ''.'' \<notin> set (Country (Key r)) \<and>
      civilDate (Date (Key r)) \<and>
      list_all (\<lambda>x. NewValue caseTable (String x) = Inr x) (Values r) \<and>
      bin r \<noteq> [] \<and> set (bin r) \<subseteq> set base32)"

text \<open>A date whose year is written in exactly four digits.\<close>

definition validDate :: "Time \<Rightarrow> bool" where
  "validDate t = (0 \<le> year t \<and> year t \<le> 9999 \<and> civilDate t)"

text \<open>The report of \<open>TestReportRoundtrip\<close>.\<close>

definition original :: Report where
  "original =
     \<lparr>Key = \<lparr>Domain = ''www.destination.example'', Country = ''zz'', Date = testDate\<rparr>,
      Values = [Value ''150ms'', Value ''hsts''], bin = ''q''\<rparr>"

section \<open>Client: the cache of domains reported today\<close>

text \<open>
  \<open>type cache struct { date time.Time; cache map[string]observed }\<close>.  The map is used as
  a set of domains.  A Go map can be nil, which is the value of the field in \<open>cache{}\<close>:
  reading a nil map and taking its length are allowed, assigning to an entry panics.  The
  field is therefore an optional finite set, \<open>None\<close> for nil.
\<close>

record cache =
  date :: Time
  cache :: "string fset option"

definition maxReports :: nat where
  "maxReports = 1000"

text \<open>The zero value \<open>cache{}\<close>: the zero \<open>time.Time\<close> is 1 January of year 1, and the map is nil.\<close>

definition zeroTime :: Time where
  "zeroTime = \<lparr>year = 1, month = 1, day = 1\<rparr>"


text \<open>
  \<open>(c *cache) Add(key) (added bool, err error)\<close>.  The result is the cache after the call
  with the two values returned, or the panic.
\<close>

definition Add :: "cache \<Rightarrow> Key \<Rightarrow> failure + (cache \<times> bool \<times> error option)" where
  "Add c key =
     (if \<not> Equal (Date key) (date c) \<and> Before (Date key) (date c)
      then Inr (c, False, Some (OldDate (Date key) (date c)))
      else
        let c1 = (if \<not> Equal (Date key) (date c)
                  then c\<lparr>cache := Some {||}, date := Date key\<rparr> else c)
        in if (case cache c1 of None \<Rightarrow> False | Some m \<Rightarrow> Domain key |\<in>| m)
           then Inr (c1, False, None)
           else if maxReports \<le> (case cache c1 of None \<Rightarrow> 0 | Some m \<Rightarrow> fcard m)
           then Inr (c1, False, Some CacheFull)
           else (case cache c1 of
                   None \<Rightarrow> Inl (Panic ''assignment to entry in nil map'')
                 | Some m \<Rightarrow> Inr (c1\<lparr>cache := Some (finsert (Domain key) m)\<rparr>, True, None)))"





section \<open>Client: the burst suppressor\<close>

text \<open>
  \<open>crypto/rand.Int(rand.Reader, max)\<close>.  It panics when \<open>max <= 0\<close>.  For \<open>max = 1\<close> the
  only result is 0 and it returns \<open>(0, nil)\<close> without reading the random source.  For a
  larger \<open>max\<close> it reads the source, and either fails with the error of the read or yields
  a number; what the source does then is the parameter \<open>source\<close>.
\<close>

definition rand_Int :: "(int \<Rightarrow> error + int) \<Rightarrow> int \<Rightarrow> failure + (error + int)" where
  "rand_Int source bound =
     (if bound \<le> 0 then Inl (Panic ''crypto/rand: argument to Int is <= 0'')
      else if bound = 1 then Inr (Inr 0)
      else Inr (source bound))"

text \<open>
  \<open>burstReportSender\<close>, without its mutex and its downstream sender, which \<open>Send\<close> does not
  use.  \<open>count\<close> is an \<open>int64\<close>.  The result of \<open>Send\<close> is the sender after the call, the
  error returned (\<open>None\<close> for nil), and whether a drain was scheduled with \<open>time.AfterFunc\<close>.
\<close>

record burstReportSender =
  burst :: int
  count :: "64 word"
  pending :: Report

definition Send ::
  "(int \<Rightarrow> error + int) \<Rightarrow> burstReportSender \<Rightarrow> Report \<Rightarrow>
   failure + (burstReportSender \<times> error option \<times> bool)" where
  "Send source l r =
     (let l1 = l\<lparr>count := count l + 1\<rparr>
      in case rand_Int source (sint (count l1)) of
           Inl p \<Rightarrow> Inl p
         | Inr (Inl err) \<Rightarrow> Inr (l1, Some err, False)
         | Inr (Inr i) \<Rightarrow>
             let l2 = (if i = 0 then l1\<lparr>pending := r\<rparr> else l1)
             in Inr (l2, None, count l2 = 1))"

text \<open>A random source whose reads fail, and one whose draws are all zero.\<close>

definition failingRand :: "int \<Rightarrow> error + int" where
  "failingRand bound = Inl RandError"

definition zeroRand :: "int \<Rightarrow> error + int" where
  "zeroRand bound = Inr 0"

section \<open>Client: the hash binner\<close>

text \<open>
  \<open>hashBinner\<close>.  Its field \<open>bins\<close> (an \<open>int\<close>, 64 bits wide here) is named \<open>numBins\<close>, since
  \<open>dam\<close> has a field \<open>bins\<close>; its method \<open>bin\<close> is \<open>hashBinner_bin\<close>, since \<open>Report\<close> has a
  field \<open>bin\<close>.
\<close>

record hashBinner =
  salt :: "8 word list"
  numBins :: "64 word"

definition saltsize :: nat where
  "saltsize = 16"

text \<open>
  \<open>crypto/rand.Read\<close> either fails or fills the slice it is given; the bytes it draws are
  a parameter.
\<close>

datatype randomSource = RandomFails | RandomBytes "nat \<Rightarrow> 8 word"

definition randRead :: "randomSource \<Rightarrow> nat \<Rightarrow> error + 8 word list" where
  "randRead src k =
     (case src of RandomFails \<Rightarrow> Inl RandError | RandomBytes f \<Rightarrow> Inr (map f [0..<k]))"

text \<open>
  \<open>newHashBinner(file, bins)\<close>, for a \<open>file\<close> that behaves like the \<open>bytes.Buffer\<close> of the
  tests: it holds the bytes not yet read, \<open>Read\<close> takes up to 16 of them from the front
  (returning \<open>io.EOF\<close>, which the code ignores, when there are none), and \<open>Write\<close> appends.
  The salt is a 16-byte array that starts as zeros.  The result is the binner and the file
  after the call.
\<close>

definition newHashBinner ::
  "randomSource \<Rightarrow> 8 word list \<Rightarrow> 64 word \<Rightarrow> error + (hashBinner \<times> 8 word list)" where
  "newHashBinner src file n =
     (if n \<le>s 0 then Inl NoBins
      else
        let k = min saltsize (length file);
            read = take k file;
            file1 = drop k file
        in if k < saltsize
           then (case randRead src (saltsize - k) of
                   Inl e \<Rightarrow> Inl e
                 | Inr extra \<Rightarrow>
                     Inr (\<lparr>salt = take saltsize (read @ extra @ replicate saltsize 0),
                           numBins = n\<rparr>,
                          file1 @ extra))
           else Inr (\<lparr>salt = read, numBins = n\<rparr>, file1))"

text \<open>\<open>base32size\<close>: the loop \<open>for v := val; v != 0; v >>= 5 { size++ }\<close>, with \<open>sz\<close> for \<open>size\<close>.\<close>

function base32size_loop :: "64 word \<Rightarrow> nat \<Rightarrow> nat" where
  "base32size_loop v sz = (if v \<noteq> 0 then base32size_loop (drop_bit 5 v) (sz + 1) else sz)"
  by pat_completeness auto
termination
proof (relation "measure (\<lambda>(v, sz). unat v)")
  show "wf (measure (\<lambda>(v :: 64 word, sz :: nat). unat v))" by simp
next
  fix v :: "64 word" and sz :: nat
  assume "v \<noteq> 0"
  then have "0 < unat v" by (simp add: unat_gt_0)
  then have "unat v div 2 ^ 5 < unat v" by simp
  moreover have "unat (drop_bit 5 v) = drop_bit 5 (unat v)"
    by (rule unat_drop_bit_eq)
  moreover have "drop_bit 5 (unat v) = unat v div 2 ^ 5"
    by (rule drop_bit_eq_div)
  ultimately have "unat (drop_bit 5 v) < unat v" by (simp only:)
  then show "((drop_bit 5 v, sz + 1), (v, sz)) \<in> measure (\<lambda>(v, sz). unat v)"
    by (simp only: in_measure prod.case)
qed

declare base32size_loop.simps [simp del]

definition base32size :: "64 word \<Rightarrow> nat" where
  "base32size val = (if val = 0 then 1 else base32size_loop val 0)"

text \<open>\<open>binary.LittleEndian.Uint64\<close>; it panics on fewer than eight bytes.\<close>

definition Uint64 :: "8 word list \<Rightarrow> failure + 64 word" where
  "Uint64 b =
     (if length b < 8 then Inl (Panic ''index out of range'')
      else Inr (ucast (b ! 0) OR push_bit 8 (ucast (b ! 1)) OR push_bit 16 (ucast (b ! 2)) OR
                push_bit 24 (ucast (b ! 3)) OR push_bit 32 (ucast (b ! 4)) OR
                push_bit 40 (ucast (b ! 5)) OR push_bit 48 (ucast (b ! 6)) OR
                push_bit 56 (ucast (b ! 7))))"

text \<open>
  The encoding loop of \<open>bin\<close>, \<open>for i := size - 1; i >= 0; i--\<close>: the first argument is
  \<open>i + 1\<close>.  \<open>bin & 0x1f\<close> is below 32, so the read of \<open>base32\<close> is in range.
\<close>

fun bin_loop :: "nat \<Rightarrow> 64 word \<Rightarrow> string \<Rightarrow> string" where
  "bin_loop 0 b chars = chars"
| "bin_loop (Suc i) b chars =
     bin_loop i (drop_bit 5 b) (chars[i := base32 ! unat (b AND 0x1f)])"

text \<open>
  \<open>(b hashBinner) bin(k)\<close>.  HMAC-SHA-256 is the parameter \<open>hmacSHA256\<close>, from a key and a
  message to the bytes of the digest.  The remainder by \<open>uint64(b.bins)\<close> panics when
  \<open>b.bins\<close> is zero.
\<close>

definition hashBinner_bin ::
  "(8 word list \<Rightarrow> string \<Rightarrow> 8 word list) \<Rightarrow> hashBinner \<Rightarrow> Key \<Rightarrow> failure + string" where
  "hashBinner_bin hmacSHA256 b k =
     (let components = [Domain k, Country k, Format (Date k)];
          code = hmacSHA256 (salt b) (Join components (CHR '';''))
      in case Uint64 code of
           Inl p \<Rightarrow> Inl p
         | Inr h \<Rightarrow>
             if numBins b = 0 then Inl (Panic ''integer divide by zero'')
             else
               let bn = h mod numBins b;
                   maxBin = numBins b - 1;
                   sz = base32size maxBin
               in Inr (bin_loop sz bn (replicate sz (CHR 0x00))))"

text \<open>A stand-in for the digest in examples: 32 bytes, each the length of the message.\<close>

definition testDigest :: "8 word list \<Rightarrow> string \<Rightarrow> 8 word list" where
  "testDigest key msg = replicate 32 (of_nat (length msg))"

definition testBytes :: "nat \<Rightarrow> 8 word" where
  "testBytes i = of_nat (i + 1)"

text \<open>The number of 5-bit groups needed to write a number: its count of base-32 digits.\<close>

fun groups5 :: "nat \<Rightarrow> nat" where
  "groups5 n = (if n = 0 then 0 else Suc (groups5 (n div 32)))"

declare groups5.simps [simp del]

definition testSalt :: "8 word list" where
  "testSalt = [1, 2, 3, 4, 5, 6, 7, 8, 9, 10, 11, 12, 13, 14, 15, 16]"
section \<open>Filter: safety below the threshold\<close>

lemma bins_of_Cons:
  "bins_of k (r # rs) = (if Key r = k then insert (bin r) (bins_of k rs) else bins_of k rs)"
  by (simp add: bins_of_def)

lemma finite_bins_of: "finite (bins_of k inp)"
  by (simp add: bins_of_def)

text \<open>A step that stays below the threshold buffers the report and sends nothing.\<close>

lemma Filter_step_fresh_below:
  assumes "pend (Key r) = None" "bin r \<noteq> []" "\<not> k \<le> 1"
  shows "Filter_step k pend r =
           Inr (pend(Key r \<mapsto> Some \<lparr>bins = {bin r}, observations = [Values r]\<rparr>), [])"
  using assms by (simp add: Filter_step_def add_def new_dam_def)

lemma Filter_step_dam_below:
  assumes "pend (Key r) = Some (Some d)" "bin r \<noteq> []"
    "\<not> k \<le> int (card (insert (bin r) (bins d)))"
  shows "Filter_step k pend r =
           Inr (pend(Key r \<mapsto> Some (d\<lparr>bins := insert (bin r) (bins d),
                                          observations := observations d @ [Values r]\<rparr>)), [])"
  using assms by (simp add: Filter_step_def add_def)

lemma held_below_other:
  "Key r \<noteq> key \<Longrightarrow> held_below k (pend(Key r \<mapsto> x)) rs key = held_below k pend (r # rs) key"
  by (simp add: held_below_def bins_of_Cons split: option.splits)

lemma held_below_step:
  assumes "held_below k pend (r # rs) (Key r)" "bin r \<noteq> []"
  shows "\<exists>d'. Filter_step k pend r = Inr (pend(Key r \<mapsto> Some d'), []) \<and>
              held_below k (pend(Key r \<mapsto> Some d')) rs (Key r)"
proof (cases "pend (Key r)")
  case None
  then have c: "int (card (insert (bin r) (bins_of (Key r) rs))) < k"
    using assms(1) by (simp add: held_below_def bins_of_Cons)
  have "0 < card (insert (bin r) (bins_of (Key r) rs))"
    by (simp add: finite_bins_of card_gt_0_iff)
  then have k1: "\<not> k \<le> 1" using c by linarith
  have "Filter_step k pend r =
          Inr (pend(Key r \<mapsto> Some \<lparr>bins = {bin r}, observations = [Values r]\<rparr>), [])"
    using None assms(2) k1 by (rule Filter_step_fresh_below)
  moreover have "held_below k (pend(Key r \<mapsto> Some \<lparr>bins = {bin r}, observations = [Values r]\<rparr>))
                   rs (Key r)"
    using c by (simp add: held_below_def)
  ultimately show ?thesis by blast
next
  case (Some dd)
  then obtain d where d: "pend (Key r) = Some (Some d)"
    using assms(1) by (cases dd) (auto simp: held_below_def)
  have fin: "finite (bins d)"
    and c: "int (card (bins d \<union> insert (bin r) (bins_of (Key r) rs))) < k"
    using assms(1) d by (simp_all add: held_below_def bins_of_Cons)
  have "card (insert (bin r) (bins d)) \<le> card (bins d \<union> insert (bin r) (bins_of (Key r) rs))"
    by (rule card_mono) (auto simp: fin finite_bins_of)
  then have nk: "\<not> k \<le> int (card (insert (bin r) (bins d)))" using c by linarith
  let ?d = "d\<lparr>bins := insert (bin r) (bins d), observations := observations d @ [Values r]\<rparr>"
  have "Filter_step k pend r = Inr (pend(Key r \<mapsto> Some ?d), [])"
    using d assms(2) nk by (rule Filter_step_dam_below)
  moreover have "held_below k (pend(Key r \<mapsto> Some ?d)) rs (Key r)"
    using c fin by (simp add: held_below_def Un_commute)
  ultimately show ?thesis by blast
qed

lemma Filter_loop_silent:
  assumes "\<forall>r\<in>set inp. bin r \<noteq> []"
    and "\<forall>r\<in>set inp. held_below k pend inp (Key r)"
  shows "Filter_loop k pend inp = ([], Closed)"
  using assms
proof (induction inp arbitrary: pend)
  case Nil
  then show ?case by simp
next
  case (Cons r rs)
  have "held_below k pend (r # rs) (Key r)" and "bin r \<noteq> []"
    using Cons.prems by simp_all
  then obtain d' where step: "Filter_step k pend r = Inr (pend(Key r \<mapsto> Some d'), [])"
    and hb: "held_below k (pend(Key r \<mapsto> Some d')) rs (Key r)"
    using held_below_step by blast
  have "Filter_loop k (pend(Key r \<mapsto> Some d')) rs = ([], Closed)"
  proof (rule Cons.IH)
    show "\<forall>r\<in>set rs. bin r \<noteq> []" using Cons.prems(1) by simp
    show "\<forall>r'\<in>set rs. held_below k (pend(Key r \<mapsto> Some d')) rs (Key r')"
    proof
      fix r' assume r': "r' \<in> set rs"
      show "held_below k (pend(Key r \<mapsto> Some d')) rs (Key r')"
      proof (cases "Key r = Key r'")
        case True
        then show ?thesis using hb by simp
      next
        case False
        then show ?thesis using Cons.prems(2) r' by (simp add: held_below_other)
      qed
    qed
  qed
  then show ?case using step by simp
qed

text \<open>
  Claim C2.  For every finite input stream whose reports all have a non-empty bin and every
  threshold \<open>k\<close>: if no key of the stream comes with \<open>k\<close> or more distinct bin strings, then
  \<open>Filter\<close> sends nothing on its output and closes it.
\<close>

theorem Filter_safety:
  assumes "\<forall>r\<in>set inp. bin r \<noteq> []"
    and "\<forall>r\<in>set inp. int (card (bins_of (Key r) inp)) < k"
  shows "Filter inp k = ([], Closed)"
  unfolding Filter_def
  by (rule Filter_loop_silent) (use assms in \<open>simp_all add: held_below_def\<close>)

theorem Filter_safety_witness:
  "list_all (\<lambda>r. bin r \<noteq> [])
     [testReport ''0'' ''1'', testReport ''1'' ''1'', testReport ''2'' ''1''] \<and>
   int (card (bins_of testKey
     [testReport ''0'' ''1'', testReport ''1'' ''1'', testReport ''2'' ''1''])) < 2 \<and>
   Filter [testReport ''0'' ''1'', testReport ''1'' ''1'', testReport ''2'' ''1''] 2 = ([], Closed)"
proof -
  let ?inp = "[testReport ''0'' ''1'', testReport ''1'' ''1'', testReport ''2'' ''1'']"
  have h1: "\<forall>r\<in>set ?inp. bin r \<noteq> []"
    by (simp add: testReport_def)
  have h2: "\<forall>r\<in>set ?inp. int (card (bins_of (Key r) ?inp)) < 2"
    by (simp add: testReport_def bins_of_def)
  have "Filter ?inp 2 = ([], Closed)"
    using h1 h2 by (rule Filter_safety)
  then show ?thesis by (simp add: testReport_def bins_of_def)
qed
section \<open>Filter: thresholds of at most one\<close>

lemma Filter_step_le_1:
  assumes "k \<le> 1" "bin r \<noteq> []" "\<forall>key d. pend key \<noteq> Some (Some d)"
  shows "\<exists>r'. Filter_step k pend r = Inr (pend(Key r \<mapsto> None), [r']) \<and>
              key_values r' = key_values r"
proof (cases "pend (Key r)")
  case None
  then show ?thesis
    using assms(1,2) by (simp add: Filter_step_def add_def new_dam_def key_values_def)
next
  case (Some dd)
  then have "pend (Key r) = Some None"
    using assms(3) by (cases dd) auto
  moreover from this have "pend(Key r \<mapsto> None) = pend"
    by (simp add: fun_upd_idem)
  ultimately show ?thesis
    by (simp add: Filter_step_def add_def)
qed

lemma Filter_loop_le_1:
  assumes "k \<le> 1" "\<forall>r\<in>set inp. bin r \<noteq> []" "\<forall>key d. pend key \<noteq> Some (Some d)"
  shows "\<exists>out p. Filter_loop k pend inp = (out, Closed) \<and>
           map key_values out = map key_values inp \<and>
           Filter_state k pend inp = Inr p \<and> (\<forall>key d. p key \<noteq> Some (Some d))"
  using assms(2,3)
proof (induction inp arbitrary: pend)
  case Nil
  then show ?case by simp
next
  case (Cons r rs)
  obtain r' where step: "Filter_step k pend r = Inr (pend(Key r \<mapsto> None), [r'])"
    and kv: "key_values r' = key_values r"
    using Filter_step_le_1 [of k r pend] assms(1) Cons.prems by auto
  have "\<forall>key d. (pend(Key r \<mapsto> None)) key \<noteq> Some (Some d)"
    using Cons.prems(2) by simp
  moreover have "\<forall>r\<in>set rs. bin r \<noteq> []" using Cons.prems(1) by simp
  ultimately obtain out p where
    "Filter_loop k (pend(Key r \<mapsto> None)) rs = (out, Closed)"
    "map key_values out = map key_values rs"
    "Filter_state k (pend(Key r \<mapsto> None)) rs = Inr p" "\<forall>key d. p key \<noteq> Some (Some d)"
    using Cons.IH by blast
  then show ?case using step kv by simp
qed

lemma Filter_loop_append:
  "Filter_state k p xs = Inr p' \<Longrightarrow>
   Filter_loop k p (xs @ ys) =
     (fst (Filter_loop k p xs) @ fst (Filter_loop k p' ys), snd (Filter_loop k p' ys))"
proof (induction xs arbitrary: p)
  case Nil
  then show ?case by simp
next
  case (Cons r rs)
  then show ?case
    by (auto split: sum.splits prod.splits)
qed

text \<open>
  Claim C10.  For every threshold \<open>k \<le> 1\<close> (zero and negative values included) and every
  input whose reports all have a non-empty bin, \<open>Filter\<close> ends by closing its output, and the
  output carries the key and the values of every input report, in order.  Each report is
  released in the step that receives it: after every prefix of the input, the output holds
  the keys and values of exactly that prefix, and \<open>pending\<close> holds no dam, only burst
  sentinels.
\<close>

theorem Filter_threshold_le_1:
  assumes "k \<le> 1" "\<forall>r\<in>set inp. bin r \<noteq> []"
  shows "snd (Filter inp k) = Closed \<and>
         map key_values (fst (Filter inp k)) = map key_values inp \<and>
         (\<forall>n\<le>length inp. \<exists>p.
            Filter_state k Map.empty (take n inp) = Inr p \<and>
            (\<forall>key d. p key \<noteq> Some (Some d)) \<and>
            map key_values (fst (Filter (take n inp) k)) = map key_values (take n inp))"
proof -
  have *: "\<exists>out p. Filter_loop k Map.empty xs = (out, Closed) \<and>
           map key_values out = map key_values xs \<and>
           Filter_state k Map.empty xs = Inr p \<and> (\<forall>key d. p key \<noteq> Some (Some d))"
    if "\<forall>r\<in>set xs. bin r \<noteq> []" for xs
    using assms(1) that by (rule Filter_loop_le_1) simp
  have "\<forall>r\<in>set (take n inp). bin r \<noteq> []" for n
    using assms(2) by (meson in_set_takeD)
  from *[OF this] *[OF assms(2)] show ?thesis
    unfolding Filter_def by (metis fst_conv snd_conv)
qed

theorem Filter_threshold_le_1_witness:
  "(0::int) \<le> 1 \<and>
   list_all (\<lambda>r. bin r \<noteq> []) [testReport ''0'' ''1'', testReport ''1'' ''2''] \<and>
   snd (Filter [testReport ''0'' ''1'', testReport ''1'' ''2''] 0) = Closed \<and>
   map key_values (fst (Filter [testReport ''0'' ''1'', testReport ''1'' ''2''] 0)) =
     [(testKey, [Value ''0'']), (testKey, [Value ''1''])]"
proof -
  have h1: "(0::int) \<le> 1" by simp
  have h2: "\<forall>r\<in>set [testReport ''0'' ''1'', testReport ''1'' ''2'']. bin r \<noteq> []"
    by (simp add: testReport_def)
  show ?thesis
    using h1 h2 Filter_threshold_le_1 [OF h1 h2] by (simp add: key_values_def testReport_def)
qed

section \<open>Filter: what is released after a key has burst\<close>

text \<open>
  The reports that \<open>add\<close> builds when a dam bursts are \<open>Report{Key, Values}\<close>: their bin is
  empty.
\<close>

lemma add_burst_strips_bin:
  assumes "add (Some d) report k = Inr (d', Some released)"
  shows "\<forall>r\<in>set released. bin r = []"
  using assms by (auto simp: add_def Let_def split: if_splits)

text \<open>
  Claim C3.  Every report on the output of \<open>Filter\<close> should carry no bin.  The reports
  released when a dam bursts do (\<open>add_burst_strips_bin\<close>), but a report for a key that has
  already burst goes through the nil branch of \<open>add\<close> and is sent as it came, bin included.
  With threshold 2, the third report below arrives after its key has burst and leaves with its
  bin \<open>''1''\<close>.
\<close>

theorem burst_key_forwards_bin:
  "Filter [testReport ''0'' ''1'', testReport ''1'' ''2'', testReport ''2'' ''1''] 2 =
     ([\<lparr>Key = testKey, Values = [Value ''0''], bin = []\<rparr>,
       \<lparr>Key = testKey, Values = [Value ''1''], bin = []\<rparr>,
       \<lparr>Key = testKey, Values = [Value ''2''], bin = ''1''\<rparr>], Closed)"
  by (simp add: Filter_def Filter_step_def add_def new_dam_def testReport_def)

text \<open>
  Claim C4, as stated: every report with an empty bin makes \<open>Filter\<close> panic, whether or not its
  key has burst.  For a key that has burst, \<open>add\<close> returns before it looks at the bin, and
  there is no panic.
\<close>

theorem empty_bin_after_burst_counterexample:
  "bin (testReport ''2'' []) = [] \<and>
   snd (Filter [testReport ''0'' ''1'', testReport ''1'' ''2'', testReport ''2'' []] 2) \<noteq> Panicked"
  by (simp add: Filter_def Filter_step_def add_def new_dam_def testReport_def)

lemma Filter_step_empty_bin:
  assumes "bin r = []"
  shows "Filter_step k pend r =
           (if pend (Key r) = Some None then Inr (pend, [r])
            else Inl (Panic ''Report is missing bin''))"
  using assms by (auto simp: Filter_step_def add_def new_dam_def split: option.splits)

text \<open>
  Claim C4, amended.  Let \<open>Filter\<close> have consumed \<open>inp\<close> without a panic, leaving the map
  \<open>pend\<close>, and let the next report have an empty bin.  \<open>Filter\<close> panics on it when its key has
  not burst (the key is absent from the map or has a dam); when the key has burst (the map
  holds nil for it), there is no panic.
\<close>

theorem Filter_empty_bin:
  assumes "Filter_state k Map.empty inp = Inr pend" "bin r = []"
  shows "snd (Filter (inp @ [r]) k) = (if pend (Key r) = Some None then Closed else Panicked)"
  using assms
  by (simp add: Filter_def Filter_loop_append Filter_step_empty_bin)

theorem Filter_empty_bin_witness:
  "Filter_state 2 Map.empty [testReport ''0'' ''1''] =
      Inr [testKey \<mapsto> Some \<lparr>bins = {''1''}, observations = [[Value ''0'']]\<rparr>] \<and>
   bin (testReport ''1'' []) = [] \<and>
   snd (Filter ([testReport ''0'' ''1''] @ [testReport ''1'' []]) 2) = Panicked"
proof -
  have h1: "Filter_state 2 Map.empty [testReport ''0'' ''1''] =
      Inr [testKey \<mapsto> Some \<lparr>bins = {''1''}, observations = [[Value ''0'']]\<rparr>]"
    by (simp add: Filter_step_def add_def new_dam_def testReport_def)
  have h2: "bin (testReport ''1'' []) = []" by (simp add: testReport_def)
  show ?thesis using h1 h2 Filter_empty_bin [OF h1 h2] by (simp add: testReport_def)
qed
section \<open>Facts about the string functions\<close>

lemma Split_not_Nil: "Split s sep \<noteq> []"
  by (induction s) (auto split: list.splits)

lemma Split_append_sep: "sep \<notin> set a \<Longrightarrow> Split (a @ sep # b) sep = a # Split b sep"
  by (induction a) auto

lemma Join_Cons: "ys \<noteq> [] \<Longrightarrow> Join (x # ys) sep = x @ sep # Join ys sep"
  by (cases ys) auto

lemma Join_Cons_Cons: "Join ((c # w) # ws) sep = c # Join (w # ws) sep"
  by (cases ws) auto

lemma Join_Split: "Join (Split s sep) sep = s"
proof (induction s)
  case Nil
  then show ?case by simp
next
  case (Cons c cs)
  obtain w ws where ws: "Split cs sep = w # ws"
    using Split_not_Nil [of cs sep] by (cases "Split cs sep") auto
  show ?case
  proof (cases "c = sep")
    case True
    then show ?thesis using Cons.IH ws by simp
  next
    case False
    then show ?thesis using Cons.IH ws by (simp add: Join_Cons_Cons)
  qed
qed

lemma Join_snoc: "xs \<noteq> [] \<Longrightarrow> Join (xs @ [y]) sep = Join xs sep @ sep # y"
proof (induction xs)
  case Nil
  then show ?case by simp
next
  case (Cons x xs)
  then show ?case by (cases xs) (simp_all add: Join_Cons)
qed

lemma Split_Join_labels:
  "\<forall>l\<in>set ls. sep \<notin> set l \<Longrightarrow> Split (Join (ls @ [d]) sep) sep = ls @ Split d sep"
proof (induction ls)
  case Nil
  then show ?case by simp
next
  case (Cons l ls)
  then show ?case by (simp add: Join_Cons Split_append_sep)
qed

lemma list_all_Join:
  "P sep \<Longrightarrow> \<forall>x\<in>set xs. list_all P x \<Longrightarrow> list_all P (Join xs sep)"
  by (induction xs sep rule: Join.induct) auto

lemma HasSuffix_append: "HasSuffix (a @ b) b"
  by (simp add: HasSuffix_def)

lemma TrimSuffix_append: "TrimSuffix (a @ b) b = a"
  by (simp add: TrimSuffix_def HasSuffix_def)

lemma HasSuffix_dot: "HasSuffix s ''.'' \<longleftrightarrow> s \<noteq> [] \<and> last s = CHR ''.''"
proof (cases s rule: rev_cases)
  case Nil
  then show ?thesis by (simp add: HasSuffix_def)
next
  case (snoc ys y)
  then show ?thesis by (auto simp: HasSuffix_def)
qed

lemma TrimSuffix_not: "\<not> HasSuffix s suffix \<Longrightarrow> TrimSuffix s suffix = s"
  by (simp add: TrimSuffix_def)

lemma ToLower_ASCII: "list_all isASCII s \<Longrightarrow> ToLower U s = map lowerASCII s"
  by (simp add: ToLower_def)

lemma lowerASCII_fixed_iff: "lowerASCII c = c \<longleftrightarrow> \<not> isUpper c"
proof -
  have "char_of ((of_char c :: nat) + 32) \<noteq> c" if "isUpper c"
  proof
    assume "char_of ((of_char c :: nat) + 32) = c"
    then have "(of_char (char_of ((of_char c :: nat) + 32)) :: nat) = of_char c"
      by simp
    then show False using that by (simp add: isUpper_def)
  qed
  then show ?thesis by (auto simp: lowerASCII_def)
qed

lemma map_lowerASCII_fixed_iff:
  "map lowerASCII s = s \<longleftrightarrow> list_all (\<lambda>c. \<not> isUpper c) s"
  by (induction s) (auto simp: lowerASCII_fixed_iff)

section \<open>Formatting a date and parsing it back\<close>

lemma decimal_1: "n < 10 \<Longrightarrow> decimal n = [digit n]"
  by (simp add: decimal.simps)

lemma decimal_2: "10 \<le> n \<Longrightarrow> n < 100 \<Longrightarrow> decimal n = [digit (n div 10), digit (n mod 10)]"
  by (subst decimal.simps) (simp add: decimal_1)

lemma decimal_3:
  "100 \<le> n \<Longrightarrow> n < 1000 \<Longrightarrow>
   decimal n = [digit (n div 100), digit (n div 10 mod 10), digit (n mod 10)]"
  by (subst decimal.simps) (simp add: decimal_2 div_mult2_eq [symmetric])

lemma decimal_4:
  "1000 \<le> n \<Longrightarrow> n < 10000 \<Longrightarrow>
   decimal n = [digit (n div 1000), digit (n div 100 mod 10), digit (n div 10 mod 10),
                digit (n mod 10)]"
  by (subst decimal.simps) (simp add: decimal_3 div_mult2_eq [symmetric])

lemma digit_0: "digit 0 = CHR ''0''"
  unfolding digit_def by code_simp

lemma decimal_value_4:
  "y div 1000 * 1000 + (y div 100 mod 10 * 100 + (y div 10 mod 10 * 10 + y mod 10)) = (y::nat)"
proof -
  define a where "a = y div 10"
  define b where "b = a div 10"
  define c where "c = b div 10"
  have ab: "y div 100 = b" "y div 1000 = c"
    by (simp_all add: a_def b_def c_def div_mult2_eq [symmetric])
  have 1: "y = a * 10 + y mod 10" by (simp add: a_def)
  have 2: "a = b * 10 + a mod 10" by (simp add: b_def)
  have 3: "b = c * 10 + b mod 10" by (simp add: c_def)
  define r0 where "r0 = y mod 10"
  define r1 where "r1 = a mod 10"
  define r2 where "r2 = b mod 10"
  have "c * 1000 + (r2 * 100 + (r1 * 10 + r0)) = y"
    using 1 2 3 unfolding r0_def [symmetric] r1_def [symmetric] r2_def [symmetric]
    by linarith
  then show ?thesis
    unfolding ab r0_def r1_def r2_def a_def [symmetric] .
qed



lemma replicate_small:
  "replicate (Suc 0) x = [x]" "replicate 2 x = [x, x]" "replicate 3 x = [x, x, x]"
  by (simp_all add: numeral_2_eq_2 numeral_3_eq_3)

lemma appendInt_2:
  "n < 100 \<Longrightarrow> appendInt (int n) 2 = [digit (n div 10), digit (n mod 10)]"
proof (cases "n < 10")
  case True
  then show ?thesis by (simp add: appendInt_def decimal_1 replicate_small digit_0)
next
  case False
  assume "n < 100"
  with False show ?thesis by (simp add: appendInt_def decimal_2)
qed

lemma appendInt_4:
  assumes "n < 10000"
  shows "appendInt (int n) 4 =
           [digit (n div 1000), digit (n div 100 mod 10), digit (n div 10 mod 10),
            digit (n mod 10)]"
proof -
  consider "n < 10" | "10 \<le> n" "n < 100" | "100 \<le> n" "n < 1000" | "1000 \<le> n"
    by linarith
  then show ?thesis
  proof cases
    case 1
    then show ?thesis by (simp add: appendInt_def decimal_1 replicate_small digit_0)
  next
    case 2
    then show ?thesis by (simp add: appendInt_def decimal_2 replicate_small digit_0)
  next
    case 3
    then show ?thesis by (simp add: appendInt_def decimal_3 replicate_small digit_0)
  next
    case 4
    then show ?thesis using assms by (simp add: appendInt_def decimal_4)
  qed
qed

lemma isDigit_digit: "n < 10 \<Longrightarrow> isDigit (digit n)"
  by (simp add: isDigit_def digit_def)

lemma digitValue_digit: "n < 10 \<Longrightarrow> digitValue (digit n) = n"
  by (simp add: digitValue_def digit_def)

lemma digit_plain: "n < 10 \<Longrightarrow> isASCII (digit n) \<and> \<not> isUpper (digit n) \<and> digit n \<noteq> CHR ''.''"
proof -
  assume n: "n < 10"
  have "(of_char (digit n) :: nat) = 48 + n" using n by (simp add: digit_def)
  moreover have "(of_char (CHR ''.'') :: nat) = 46" by simp
  ultimately show ?thesis using n
    by (auto simp: isASCII_def isUpper_def)
qed

lemma Format_digits:
  assumes "validDate t"
  shows "Format t =
           [digit (nat (year t) div 1000), digit (nat (year t) div 100 mod 10),
            digit (nat (year t) div 10 mod 10), digit (nat (year t) mod 10),
            digit (month t div 10), digit (month t mod 10),
            digit (day t div 10), digit (day t mod 10)]"
proof -
  have y: "nat (year t) < 10000" "int (nat (year t)) = year t"
    using assms by (auto simp: validDate_def civilDate_def)
  have m: "month t < 100" using assms by (simp add: validDate_def civilDate_def)
  have "day t \<le> 31" using assms by (auto simp: validDate_def civilDate_def daysIn_def split: if_splits)
  then have d: "day t < 100" by simp
  show ?thesis
    using appendInt_4 [OF y(1), unfolded y(2)] appendInt_2 [OF m] appendInt_2 [OF d]
    by (simp add: Format_def)
qed

lemma Parse_Format:
  assumes "validDate t"
  shows "Parse (Format t) = Inr t"
proof -
  define y where "y = nat (year t)"
  have y: "y < 10000" "int y = year t"
    using assms by (auto simp: validDate_def civilDate_def y_def)
  have m: "1 \<le> month t" "month t \<le> 12" using assms by (auto simp: validDate_def civilDate_def)
  have d: "1 \<le> day t" "day t \<le> daysIn (month t) (year t)" "day t \<le> 31"
    using assms by (auto simp: validDate_def civilDate_def daysIn_def split: if_splits)
  have yv: "y div 1000 * 1000 + (y div 100 mod 10 * 100 + (y div 10 mod 10 * 10 + y mod 10)) = y"
    by (rule decimal_value_4)
  have ydig: "y div 1000 < 10" "y div 100 mod 10 < 10" "y div 10 mod 10 < 10" "y mod 10 < 10"
    using y(1) by simp_all
  have mdig: "month t div 10 < 10" "month t mod 10 < 10" using m by simp_all
  have ddig: "day t div 10 < 10" "day t mod 10 < 10" using d by simp_all
  have mv: "month t div 10 * 10 + month t mod 10 = month t" by simp
  have dv: "day t div 10 * 10 + day t mod 10 = day t" by simp
  have "Parse [digit (y div 1000), digit (y div 100 mod 10), digit (y div 10 mod 10),
               digit (y mod 10), digit (month t div 10), digit (month t mod 10),
               digit (day t div 10), digit (day t mod 10)] = Inr t"
    using m d(1,2) y(2)
    by (simp add: Parse_def isDigit_digit digitValue_digit ydig mdig ddig yv mv dv)
  then show ?thesis using Format_digits [OF assms] by (simp add: y_def)
qed

lemma decimal_plain:
  "list_all (\<lambda>c. isASCII c \<and> \<not> isUpper c \<and> c \<noteq> CHR ''.'') (decimal n)"
proof (induction n rule: decimal.induct)
  case (1 n)
  show ?case
  proof (cases "n < 10")
    case True
    then show ?thesis by (simp add: decimal_1 digit_plain)
  next
    case False
    have "decimal n = decimal (n div 10) @ [digit (n mod 10)]"
      using False by (subst decimal.simps) simp
    moreover have "n mod 10 < 10" by simp
    ultimately show ?thesis using 1 [OF False] digit_plain [of "n mod 10"] by simp
  qed
qed

lemma sign_plain:
  "isASCII (CHR ''-'') \<and> \<not> isUpper (CHR ''-'') \<and> CHR ''-'' \<noteq> CHR ''.''"
  "isASCII (CHR ''0'') \<and> \<not> isUpper (CHR ''0'') \<and> CHR ''0'' \<noteq> CHR ''.''"
  by (simp_all add: isASCII_def isUpper_def)

lemma appendInt_plain:
  "list_all (\<lambda>c. isASCII c \<and> \<not> isUpper c \<and> c \<noteq> CHR ''.'') (appendInt x w)"
proof -
  let ?P = "\<lambda>c. isASCII c \<and> \<not> isUpper c \<and> c \<noteq> CHR ''.''"
  have 1: "list_all ?P (if x < 0 then ''-'' else [])"
    using sign_plain(1) by simp
  have 2: "list_all ?P (replicate k (CHR ''0''))" for k
    using sign_plain(2) by (induction k) simp_all
  show ?thesis
    unfolding appendInt_def using 1 2 decimal_plain by (simp only: list_all_append simp_thms)
qed

lemma Format_plain:
  "list_all (\<lambda>c. isASCII c \<and> \<not> isUpper c \<and> c \<noteq> CHR ''.'') (Format t)"
  unfolding Format_def using appendInt_plain by (simp only: list_all_append simp_thms)
section \<open>Parsing the name of a report\<close>

lemma dot_plain: "isASCII (CHR ''.'')" "\<not> isUpper (CHR ''.'')" "lowerASCII (CHR ''.'') = CHR ''.''"
  by (simp_all add: isASCII_def isUpper_def lowerASCII_def)

lemma normalize_strip_suffix:
  assumes X: "list_all isASCII X" "map lowerASCII X = X"
    and S: "list_all isASCII suffix"
    and E: "suffix = [] \<longrightarrow> \<not> HasSuffix X ''.''"
  shows "HasSuffix (normalizeForReport U (X @ CHR ''.'' # suffix)) (normalizeForReport U suffix) \<and>
         TrimSuffix (TrimSuffix (normalizeForReport U (X @ CHR ''.'' # suffix))
                                (normalizeForReport U suffix)) ''.'' = X"
proof -
  define S' where "S' = TrimSuffix suffix ''.''"
  have S'_ascii: "list_all isASCII S'"
    using S by (auto simp: S'_def TrimSuffix_def list_all_iff dest: in_set_takeD)
  have sfx: "normalizeForReport U suffix = map lowerASCII S'"
    by (simp add: normalizeForReport_def S'_def [symmetric] ToLower_ASCII [OF S'_ascii])
  have two: "TrimSuffix (TrimSuffix (X @ CHR ''.'' # map lowerASCII S') (map lowerASCII S')) ''.'' = X"
  proof -
    have "TrimSuffix ((X @ ''.'') @ map lowerASCII S') (map lowerASCII S') = X @ ''.''"
      by (rule TrimSuffix_append)
    moreover have "TrimSuffix (X @ ''.'') ''.'' = X"
      by (rule TrimSuffix_append)
    ultimately show ?thesis by simp
  qed
  have has: "HasSuffix (X @ CHR ''.'' # map lowerASCII S') (map lowerASCII S')"
    using HasSuffix_append [of "X @ ''.''" "map lowerASCII S'"] by simp
  show ?thesis
  proof (cases "suffix = []")
    case True
    then have S'e: "S' = []" by (simp add: S'_def TrimSuffix_def HasSuffix_def)
    have "TrimSuffix (X @ ''.'') ''.'' = X" by (rule TrimSuffix_append)
    then have n1: "normalizeForReport U (X @ CHR ''.'' # suffix) = X"
      using True X by (simp add: normalizeForReport_def ToLower_ASCII)
    have "\<not> HasSuffix X ''.''" using E True by simp
    then have "TrimSuffix X ''.'' = X" by (rule TrimSuffix_not)
    moreover have "HasSuffix X []" "TrimSuffix X [] = X"
      by (simp_all add: HasSuffix_def TrimSuffix_def)
    ultimately show ?thesis by (simp add: n1 sfx S'e)
  next
    case False
    have trimmed: "TrimSuffix (X @ CHR ''.'' # suffix) ''.'' = X @ CHR ''.'' # S'"
    proof (cases "HasSuffix suffix ''.''")
      case True
      then obtain T where T: "suffix = T @ ''.''"
        by (metis HasSuffix_dot append_butlast_last_id)
      then have "S' = T" by (simp add: S'_def TrimSuffix_append)
      moreover have "TrimSuffix ((X @ CHR ''.'' # T) @ ''.'') ''.'' = X @ CHR ''.'' # T"
        by (rule TrimSuffix_append)
      ultimately show ?thesis using T by simp
    next
      case nd: False
      then have "S' = suffix" by (simp add: S'_def TrimSuffix_not)
      moreover have "\<not> HasSuffix (X @ CHR ''.'' # suffix) ''.''"
        using nd False by (simp add: HasSuffix_dot)
      ultimately show ?thesis by (simp add: TrimSuffix_not)
    qed
    have "list_all isASCII (X @ CHR ''.'' # S')"
      using X(1) S'_ascii by (simp add: dot_plain)
    then have "normalizeForReport U (X @ CHR ''.'' # suffix) = X @ CHR ''.'' # map lowerASCII S'"
      using X(2) by (simp add: normalizeForReport_def trimmed ToLower_ASCII dot_plain)
    then show ?thesis using has two by (simp add: sfx)
  qed
qed

lemma NewValue_Inr:
  assumes "NewValue U s = Inr x"
  shows "x = Value s" "CHR ''.'' \<notin> set s" "list_all isASCII s"
    "list_all (\<lambda>c. \<not> isUpper c) s" "length s \<le> 63"
proof -
  have a: "CHR ''.'' \<notin> set s" "ToLower U s = s" "length s \<le> 63" "list_all isASCII s"
    "x = Value s"
    using assms by (auto simp: NewValue_def list_ex_iff list_all_iff split: if_splits)
  then have "map lowerASCII s = s" by (simp add: ToLower_ASCII)
  then have "list_all (\<lambda>c. \<not> isUpper c) s" by (simp add: map_lowerASCII_fixed_iff)
  with a show "x = Value s" "CHR ''.'' \<notin> set s" "list_all isASCII s"
    "list_all (\<lambda>c. \<not> isUpper c) s" "length s \<le> 63" by simp_all
qed

lemma NewValues_valid:
  "list_all (\<lambda>x. NewValue U (String x) = Inr x) xs \<Longrightarrow> NewValues U (map String xs) = Inr xs"
  by (induction xs) auto

lemma base32_plain:
  "c \<in> set base32 \<Longrightarrow> isASCII c \<and> \<not> isUpper c \<and> c \<noteq> CHR ''.''"
  by (auto simp: base32_def isASCII_def isUpper_def)

lemma wrap64_le: "0 \<le> x \<Longrightarrow> wrap64 x \<le> x"
proof -
  assume "0 \<le> x"
  then have "(x + 2 ^ 63) mod 2 ^ 64 \<le> x + 2 ^ 63"
    by (intro zmod_le_nonneg_dividend) simp
  then show ?thesis by (simp add: wrap64_def)
qed

text \<open>
  Up to the date, the parser inverts \<open>name\<close>: what it returns is decided by what \<open>Parse\<close>
  makes of the formatted date.
\<close>

lemma ParseReport_name_date:
  assumes inv: "ReportInvariants U r"
    and sfx: "list_all isASCII suffix"
    and ne: "Domain (Key r) \<noteq> [] \<or> suffix \<noteq> []"
  shows "ParseReport U \<lparr>Suffix = suffix, nValues = int (length (Values r))\<rparr> (name r suffix) =
           (case Parse (Format (Date (Key r))) of
              Inl e \<Rightarrow> Inl (Error e)
            | Inr d \<Rightarrow> Inr (r\<lparr>Key := (Key r)\<lparr>Date := d\<rparr>\<rparr>))"
proof -
  define vals where "vals = Values r"
  define dom where "dom = Domain (Key r)"
  define cc where "cc = Country (Key r)"
  define dt where "dt = Date (Key r)"
  define L where "L = map String vals @ [bin r, cc, Format dt]"
  define X where "X = Join (L @ [dom]) (CHR ''.'')"
  have dl: "list_all (\<lambda>c. isASCII c \<and> \<not> isUpper c \<and> c \<noteq> CHR ''.'') (Format dt)"
    by (rule Format_plain)
  have v: "list_all (\<lambda>x. NewValue U (String x) = Inr x) vals"
    using inv by (simp add: ReportInvariants_def vals_def)
  have vplain: "CHR ''.'' \<notin> set l \<and> list_all isASCII l \<and> list_all (\<lambda>c. \<not> isUpper c) l"
    if "l \<in> set (map String vals)" for l
  proof -
    from that obtain x where "x \<in> set vals" "l = String x" by auto
    then have "NewValue U l = Inr x" using v by (simp add: list_all_iff)
    then show ?thesis using NewValue_Inr by blast
  qed
  have bplain: "CHR ''.'' \<notin> set (bin r) \<and> list_all isASCII (bin r) \<and>
                list_all (\<lambda>c. \<not> isUpper c) (bin r)"
    using inv base32_plain by (auto simp: ReportInvariants_def list_all_iff)
  have cplain: "CHR ''.'' \<notin> set cc \<and> list_all isASCII cc \<and> list_all (\<lambda>c. \<not> isUpper c) cc"
    using inv by (auto simp: ReportInvariants_def lowerCaseASCII_def list_all_iff cc_def)
  have dplain: "CHR ''.'' \<notin> set (Format dt) \<and> list_all isASCII (Format dt) \<and>
                list_all (\<lambda>c. \<not> isUpper c) (Format dt)"
    using dl by (auto simp: list_all_iff)
  have domplain: "list_all isASCII dom \<and> list_all (\<lambda>c. \<not> isUpper c) dom"
    using inv by (auto simp: ReportInvariants_def lowerCaseASCII_def list_all_iff dom_def)
  have Lplain: "CHR ''.'' \<notin> set l \<and> list_all isASCII l \<and> list_all (\<lambda>c. \<not> isUpper c) l"
    if "l \<in> set L" for l
    using that vplain bplain cplain dplain unfolding L_def by auto
  have Lne: "L \<noteq> []" by (simp add: L_def)
  have lenL: "length L = length vals + 3" by (simp add: L_def)
  have name_eq: "name r suffix = X @ CHR ''.'' # suffix"
  proof -
    have "name r suffix = Join ((L @ [dom]) @ [suffix]) (CHR ''.'')"
      by (simp add: name_def L_def vals_def cc_def dt_def dom_def)
    also have "\<dots> = X @ CHR ''.'' # suffix"
      unfolding X_def by (rule Join_snoc) simp
    finally show ?thesis .
  qed
  have Xascii: "list_all isASCII X"
    unfolding X_def using Lplain domplain by (intro list_all_Join) (auto simp: dot_plain)
  have "list_all (\<lambda>c. \<not> isUpper c) X"
    unfolding X_def using Lplain domplain by (intro list_all_Join) (auto simp: dot_plain)
  then have Xlow: "map lowerASCII X = X" by (simp add: map_lowerASCII_fixed_iff)
  have Xdot: "suffix = [] \<longrightarrow> \<not> HasSuffix X ''.''"
  proof
    assume "suffix = []"
    then have d: "dom \<noteq> []" using ne by (simp add: dom_def)
    have "\<not> HasSuffix dom ''.''" using inv by (simp add: ReportInvariants_def dom_def)
    then have "last dom \<noteq> CHR ''.''" using d by (simp add: HasSuffix_dot)
    moreover have "X = Join L (CHR ''.'') @ CHR ''.'' # dom"
      unfolding X_def using Lne by (rule Join_snoc)
    ultimately show "\<not> HasSuffix X ''.''" using d by (simp add: HasSuffix_dot)
  qed
  note strip = normalize_strip_suffix [OF Xascii Xlow sfx Xdot, of U]
  have split: "Split X (CHR ''.'') = L @ Split dom (CHR ''.'')"
    unfolding X_def using Lplain by (intro Split_Join_labels) auto
  obtain w ws where ws: "Split dom (CHR ''.'') = w # ws"
    using Split_not_Nil [of dom "CHR ''.''"] by (cases "Split dom (CHR ''.'')") auto
  have ascii_name: "\<not> list_ex (\<lambda>c. \<not> isASCII c) (name r suffix)"
    using Xascii sfx by (auto simp: name_eq list_ex_iff list_all_iff dot_plain)
  have tk: "take (length vals) L = map String vals"
    and dr: "drop (length vals) L = [bin r, cc, Format dt]"
    by (simp_all add: L_def)
  have wl: "wrap64 (int (length vals) + 3) \<le> int (length vals) + 3"
    by (rule wrap64_le) simp
  have nv: "NewValues U (map String vals) = Inr vals"
    using v by (rule NewValues_valid)
  have dj: "Join (w # ws) (CHR ''.'') = dom"
    using Join_Split [of dom "CHR ''.''"] ws by simp
  have "ParseReport U \<lparr>Suffix = suffix, nValues = int (length vals)\<rparr> (name r suffix) =
          (case Parse (Format dt) of
             Inl e \<Rightarrow> Inl (Error e)
           | Inr d \<Rightarrow>
               Inr \<lparr>Key = \<lparr>Domain = dom, Country = cc, Date = d\<rparr>, Values = vals, bin = bin r\<rparr>)"
    using ascii_name strip wl
    by (simp add: ParseReport_def name_eq [symmetric] Let_def split ws lenL tk dr nv dj
          split: sum.splits)
  then show ?thesis
    by (simp add: vals_def dom_def cc_def dt_def split: sum.splits)
qed

text \<open>
  Claim C1, amended.  Let \<open>r\<close> satisfy the invariants of the data model, with a year from 0
  to 9999, and let \<open>suffix\<close> consist of ASCII bytes and be non-empty when the domain of \<open>r\<close>
  is empty.  Then a receiver configured with \<open>suffix\<close> and \<open>len(r.Values)\<close> values parses
  \<open>name(r, suffix)\<close> without error, and the report it returns has the key, the values and
  the bin of \<open>r\<close>.  This holds whatever the Unicode lower-casing \<open>U\<close> does.
\<close>

theorem ParseReport_name:
  assumes inv: "ReportInvariants U r"
    and yr: "0 \<le> year (Date (Key r))" "year (Date (Key r)) \<le> 9999"
    and sfx: "list_all isASCII suffix"
    and ne: "Domain (Key r) \<noteq> [] \<or> suffix \<noteq> []"
  shows "ParseReport U \<lparr>Suffix = suffix, nValues = int (length (Values r))\<rparr> (name r suffix) = Inr r"
proof -
  have "validDate (Date (Key r))"
    using inv yr by (simp add: ReportInvariants_def validDate_def)
  then have "Parse (Format (Date (Key r))) = Inr (Date (Key r))"
    by (rule Parse_Format)
  then show ?thesis
    using ParseReport_name_date [OF inv sfx ne] by simp
qed


lemma original_invariants: "ReportInvariants id original"
  by code_simp

theorem ParseReport_name_witness:
  "ReportInvariants id original \<and> list_all isASCII ''metrics.example.com'' \<and>
   ParseReport id \<lparr>Suffix = ''metrics.example.com'', nValues = 2\<rparr>
     (name original ''metrics.example.com'') = Inr original"
proof -
  have h1: "ReportInvariants id original" by (rule original_invariants)
  have h2: "0 \<le> year (Date (Key original))" "year (Date (Key original)) \<le> 9999"
    by (simp_all add: original_def testDate_def)
  have h3: "list_all isASCII ''metrics.example.com''" by (simp add: isASCII_def)
  have h4: "Domain (Key original) \<noteq> [] \<or> ''metrics.example.com'' \<noteq> []" by simp
  have "int (length (Values original)) = 2" by (simp add: original_def)
  then show ?thesis using h1 h3 ParseReport_name [OF h1 h2 h3 h4] by simp
qed

text \<open>
  Claim C1, as stated, quantifies over every suffix and every day.  Three reports that
  satisfy the invariants and do not come back: with a suffix that is not ASCII the parser
  rejects the name at its first test; with an empty domain and an empty suffix the name ends
  in a dot that normalisation removes, and too few labels are left; the year 10000 is
  formatted in five digits, which \<open>Parse\<close> does not read back.
\<close>

lemma name_non_ASCII_suffix:
  "ParseReport id \<lparr>Suffix = [CHR 0xC3, CHR 0xA9], nValues = 2\<rparr>
     (name original [CHR 0xC3, CHR 0xA9]) = Inl (Error NameNotASCII)"
  by code_simp

lemma name_empty_domain_and_suffix:
  "ReportInvariants id (original\<lparr>Key := \<lparr>Domain = [], Country = ''zz'', Date = testDate\<rparr>\<rparr>)"
  "ParseReport id \<lparr>Suffix = [], nValues = 2\<rparr>
     (name (original\<lparr>Key := \<lparr>Domain = [], Country = ''zz'', Date = testDate\<rparr>\<rparr>) []) =
       Inl (Error NameTooShort)"
  by code_simp+

lemma Format_year_10000:
  "Format \<lparr>year = 10000, month = 1, day = 1\<rparr> = ''100000101''"
  unfolding Format_def appendInt_def
  by (simp add: decimal.simps digit_def) code_simp

lemma Parse_year_10000: "Parse ''100000101'' = Inl (TimeParseError ''100000101'')"
  by (simp add: Parse_def isDigit_def digitValue_def)

lemma name_year_10000:
  "ReportInvariants id
     (original\<lparr>Key := \<lparr>Domain = ''www.destination.example'', Country = ''zz'',
                         Date = \<lparr>year = 10000, month = 1, day = 1\<rparr>\<rparr>\<rparr>)"
  "ParseReport id \<lparr>Suffix = ''metrics.example.com'', nValues = 2\<rparr>
     (name (original\<lparr>Key := \<lparr>Domain = ''www.destination.example'', Country = ''zz'',
                         Date = \<lparr>year = 10000, month = 1, day = 1\<rparr>\<rparr>\<rparr>) ''metrics.example.com'') =
       Inl (Error (TimeParseError ''100000101''))"
proof -
  let ?r = "original\<lparr>Key := \<lparr>Domain = ''www.destination.example'', Country = ''zz'',
                         Date = \<lparr>year = 10000, month = 1, day = 1\<rparr>\<rparr>\<rparr>"
  show inv: "ReportInvariants id ?r" by code_simp
  have s: "list_all isASCII ''metrics.example.com''" by (simp add: isASCII_def)
  have n: "Domain (Key ?r) \<noteq> [] \<or> ''metrics.example.com'' \<noteq> []" by simp
  have l: "int (length (Values ?r)) = 2" by (simp add: original_def)
  show "ParseReport id \<lparr>Suffix = ''metrics.example.com'', nValues = 2\<rparr>
          (name ?r ''metrics.example.com'') = Inl (Error (TimeParseError ''100000101''))"
  proof -
    have "Date (Key ?r) = \<lparr>year = 10000, month = 1, day = 1\<rparr>"
      by (simp del: One_nat_def)
    then have e: "Parse (Format (Date (Key ?r))) = Inl (TimeParseError ''100000101'')"
      by (simp only: Format_year_10000 Parse_year_10000)
    show ?thesis
      using ParseReport_name_date [OF inv s n] unfolding l e by (simp only: sum.case)
  qed
qed

theorem ParseReport_name_counterexample:
  "ReportInvariants id original \<and>
   ParseReport id \<lparr>Suffix = [CHR 0xC3, CHR 0xA9], nValues = 2\<rparr>
     (name original [CHR 0xC3, CHR 0xA9]) = Inl (Error NameNotASCII) \<and>
   ReportInvariants id (original\<lparr>Key := \<lparr>Domain = [], Country = ''zz'', Date = testDate\<rparr>\<rparr>) \<and>
   ParseReport id \<lparr>Suffix = [], nValues = 2\<rparr>
     (name (original\<lparr>Key := \<lparr>Domain = [], Country = ''zz'', Date = testDate\<rparr>\<rparr>) []) =
       Inl (Error NameTooShort) \<and>
   ReportInvariants id
     (original\<lparr>Key := \<lparr>Domain = ''www.destination.example'', Country = ''zz'',
                         Date = \<lparr>year = 10000, month = 1, day = 1\<rparr>\<rparr>\<rparr>) \<and>
   ParseReport id \<lparr>Suffix = ''metrics.example.com'', nValues = 2\<rparr>
     (name (original\<lparr>Key := \<lparr>Domain = ''www.destination.example'', Country = ''zz'',
                         Date = \<lparr>year = 10000, month = 1, day = 1\<rparr>\<rparr>\<rparr>) ''metrics.example.com'') =
       Inl (Error (TimeParseError ''100000101''))"
  by (intro conjI original_invariants name_non_ASCII_suffix name_empty_domain_and_suffix
        name_year_10000)
section \<open>The checks of \<open>NewValue\<close>\<close>















section \<open>What \<open>Send\<close> of the burst suppressor returns\<close>

text \<open>
  Claim C5, as stated: \<open>Send\<close> returns nil for every report and every state.  With a
  random source whose reads fail, the first \<open>Send\<close> of a burst returns nil (the bound is 1
  and nothing is read), and the second, from the state the first one leaves, returns the
  error of the source.
\<close>

theorem Send_rand_error_counterexample:
  "Send failingRand \<lparr>burst = 0, count = 0, pending = original\<rparr> original =
     Inr (\<lparr>burst = 0, count = 1, pending = original\<rparr>, None, True) \<and>
   Send failingRand \<lparr>burst = 0, count = 1, pending = original\<rparr> original =
     Inr (\<lparr>burst = 0, count = 2, pending = original\<rparr>, Some RandError, False)"
  by (simp add: Send_def rand_Int_def failingRand_def)

text \<open>
  Claim C5, amended.  When the incremented count is positive, \<open>Send\<close> returns without a
  panic.  It returns nil for the first report of a burst, and for a later one when
  \<open>rand.Int\<close> yields a number; it returns the error of \<open>rand.Int\<close> when the read of the
  random source fails.  No other error is returned.
\<close>

theorem Send_result:
  assumes "0 < sint (count l + 1)"
  shows "\<exists>l' scheduled.
           Send source l r =
             Inr (l',
                  (if sint (count l + 1) = 1 then None
                   else case source (sint (count l + 1)) of Inl e \<Rightarrow> Some e | Inr i \<Rightarrow> None),
                  scheduled)"
proof -
  define l1 where "l1 = l\<lparr>count := count l + 1\<rparr>"
  define l2 where "l2 = l1\<lparr>pending := r\<rparr>"
  consider "sint (count l + 1) = 1"
    | e where "sint (count l + 1) \<noteq> 1" "source (sint (count l + 1)) = Inl e"
    | i where "sint (count l + 1) \<noteq> 1" "source (sint (count l + 1)) = Inr i"
    by (cases "source (sint (count l + 1))") auto
  then show ?thesis
  proof cases
    case 1
    then have "Send source l r = Inr (l2, None, count l2 = 1)"
      by (simp add: Send_def rand_Int_def Let_def l1_def l2_def)
    then show ?thesis using 1 by (intro exI [of _ l2] exI [of _ "count l2 = 1"]) simp
  next
    case 2
    then have "Send source l r = Inr (l1, Some e, False)"
      using assms by (simp add: Send_def rand_Int_def Let_def l1_def)
    then show ?thesis using 2 by (intro exI [of _ l1] exI [of _ False]) simp
  next
    case 3
    define l3 where "l3 = (if i = 0 then l2 else l1)"
    have "Send source l r = Inr (l3, None, count l3 = 1)"
      using assms 3 by (simp add: Send_def rand_Int_def Let_def l1_def l2_def l3_def)
    then show ?thesis using 3 by (intro exI [of _ l3] exI [of _ "count l3 = 1"]) simp
  qed
qed

theorem Send_result_witness:
  "0 < sint (count \<lparr>burst = 0, count = 1, pending = original\<rparr> + 1) \<and>
   Send zeroRand \<lparr>burst = 0, count = 1, pending = original\<rparr> (testReport ''0'' ''1'') =
     Inr (\<lparr>burst = 0, count = 2, pending = testReport ''0'' ''1''\<rparr>, None, False)"
proof -
  let ?l = "\<lparr>burst = 0, count = 1 :: 64 word, pending = original\<rparr>"
  have h: "0 < sint (count ?l + 1)" by simp
  from Send_result [OF h, of zeroRand "testReport ''0'' ''1''"]
  obtain l' scheduled where e:
    "Send zeroRand ?l (testReport ''0'' ''1'') = Inr (l', None, scheduled)"
    by (auto simp: zeroRand_def)
  have "Send zeroRand ?l (testReport ''0'' ''1'') =
          Inr (\<lparr>burst = 0, count = 2, pending = testReport ''0'' ''1''\<rparr>, None, False)"
    by (simp add: Send_def rand_Int_def zeroRand_def)
  with e have "l' = \<lparr>burst = 0, count = 2, pending = testReport ''0'' ''1''\<rparr>" "scheduled = False"
    by simp_all
  with e h show ?thesis by simp
qed
section \<open>The cache of the once-a-day sender\<close>




text \<open>
  The one case left out: a nil map and a key dated exactly the stored date.  The branch that
  allocates the map is skipped and the assignment panics.  On \<open>cache{}\<close> this takes a key
  dated 1 January of year 1.
\<close>

lemma Add_nil_map_same_date:
  "Equal (Date key) (date c) \<Longrightarrow> cache c = None \<Longrightarrow>
   Add c key = Inl (Panic ''assignment to entry in nil map'')"
  by (simp add: Add_def maxReports_def)

text \<open>
  The caches that arise from \<open>cache{}\<close> have a nil map only while the date is still the zero
  time, and \<open>Add\<close> keeps it so; for them every key dated after the zero time, as \<open>today()\<close>
  is, meets the hypothesis of the theorem below.
\<close>

lemma Add_keeps_allocated:
  assumes "Add c key = Inr (c', added, err)" "cache c = None \<longrightarrow> date c = zeroTime"
  shows "cache c' = None \<longrightarrow> date c' = zeroTime"
  using assms by (auto simp: Add_def Let_def split: if_splits option.splits)

lemma receivable:
  assumes "cache c = None \<longrightarrow> date c = zeroTime" "Before zeroTime (Date key)"
  shows "cache c \<noteq> None \<or> \<not> Equal (Date key) (date c)"
  using assms by (auto simp: Equal_def Before_def)



section \<open>The hash binner\<close>

lemma length_bin_loop: "length (bin_loop n b chars) = length chars"
  by (induction n arbitrary: b chars) simp_all

lemma unat_drop_bit_5: "unat (drop_bit 5 (v :: 64 word)) = unat v div 32"
proof -
  have "unat (drop_bit 5 v) = drop_bit 5 (unat v)" by (rule unat_drop_bit_eq)
  also have "\<dots> = unat v div 2 ^ 5" by (rule drop_bit_eq_div)
  finally show ?thesis by simp
qed

lemma groups5_0: "groups5 0 = 0"
  by (subst groups5.simps) simp

lemma groups5_pos: "n \<noteq> 0 \<Longrightarrow> groups5 n = Suc (groups5 (n div 32))"
  by (subst groups5.simps) simp

lemma base32size_loop_0: "base32size_loop 0 sz = sz"
  by (subst base32size_loop.simps) simp

lemma base32size_loop_pos:
  "v \<noteq> 0 \<Longrightarrow> base32size_loop v sz = base32size_loop (drop_bit 5 v) (sz + 1)"
  by (subst base32size_loop.simps) simp

lemma base32size_loop_groups5: "base32size_loop v sz = sz + groups5 (unat v)"
proof (induction v sz rule: base32size_loop.induct)
  case (1 v sz)
  show ?case
  proof (cases "v = 0")
    case True
    then show ?thesis by (simp add: base32size_loop_0 groups5_0)
  next
    case False
    then have nz: "unat v \<noteq> 0" by (simp add: unat_eq_0)
    have "base32size_loop v sz = base32size_loop (drop_bit 5 v) (sz + 1)"
      using False by (rule base32size_loop_pos)
    also have "\<dots> = sz + 1 + groups5 (unat v div 32)"
      using 1 [OF False] by (simp add: unat_drop_bit_5)
    also have "\<dots> = sz + groups5 (unat v)"
      using nz by (simp add: groups5_pos)
    finally show ?thesis .
  qed
qed

lemma base32size_groups5: "base32size v = (if v = 0 then 1 else groups5 (unat v))"
  by (simp add: base32size_def base32size_loop_groups5)

lemma groups5_bounds: "n \<noteq> 0 \<Longrightarrow> 32 ^ (groups5 n - 1) \<le> n \<and> n < 32 ^ groups5 n"
proof (induction n rule: groups5.induct)
  case (1 n)
  show ?case
  proof (cases "n div 32 = 0")
    case True
    then have "n < 32" by simp
    moreover have "groups5 n = 1"
      using 1(2) True by (simp add: groups5_pos groups5_0)
    ultimately show ?thesis using 1(2) by simp
  next
    case False
    have g: "groups5 n = Suc (groups5 (n div 32))"
      using 1(2) by (rule groups5_pos)
    have pos: "0 < groups5 (n div 32)"
      using False by (simp add: groups5_pos)
    have ih: "32 ^ (groups5 (n div 32) - 1) \<le> n div 32" "n div 32 < 32 ^ groups5 (n div 32)"
      using 1(1) [OF 1(2) False] by simp_all
    have "32 ^ (groups5 n - 1) = 32 * 32 ^ (groups5 (n div 32) - 1)"
      using g pos by (cases "groups5 (n div 32)") simp_all
    also have "\<dots> \<le> 32 * (n div 32)" using ih(1) by simp
    also have "\<dots> \<le> n" by simp
    finally have lo: "32 ^ (groups5 n - 1) \<le> n" .
    have "n < 32 * (n div 32 + 1)" by (simp add: dividend_less_times_div)
    also have "\<dots> \<le> 32 * 32 ^ groups5 (n div 32)"
      using ih(2) by simp
    finally have "n < 32 ^ groups5 n" using g by simp
    then show ?thesis using lo by simp
  qed
qed

lemma groups5_small: "0 < n \<Longrightarrow> n < 32 \<Longrightarrow> groups5 n = 1"
  by (simp add: groups5_pos groups5_0)

lemma groups5_two: "32 \<le> n \<Longrightarrow> n < 1024 \<Longrightarrow> groups5 n = 2"
proof -
  assume a: "32 \<le> n" "n < 1024"
  then have "0 < n div 32" "n div 32 < 32" by simp_all
  then have "groups5 (n div 32) = 1" by (rule groups5_small)
  moreover have "n \<noteq> 0" using a by simp
  ultimately show ?thesis by (simp add: groups5_pos)
qed

lemma base32size_le_32:
  assumes "n \<noteq> 0" "unat n \<le> 32"
  shows "base32size (n - 1 :: 64 word) = 1"
proof -
  have u: "unat (n - 1) = unat n - 1" using assms(1) by (simp add: unat_minus_one)
  show ?thesis
  proof (cases "n - 1 = 0")
    case True
    then show ?thesis by (simp add: base32size_def)
  next
    case False
    then have "0 < unat (n - 1)" by (simp add: unat_gt_0)
    moreover have "unat (n - 1) < 32" using u assms False by (simp add: unat_gt_0)
    ultimately show ?thesis using False by (simp add: base32size_groups5 groups5_small)
  qed
qed

lemma base32size_le_1024:
  assumes "33 \<le> unat n" "unat n \<le> 1024"
  shows "base32size (n - 1 :: 64 word) = 2"
proof -
  have nz: "n \<noteq> 0" using assms(1) by auto
  have u: "unat (n - 1) = unat n - 1" using nz by (simp add: unat_minus_one)
  have r: "32 \<le> unat (n - 1)" "unat (n - 1) < 1024" using u assms by simp_all
  have "n - 1 \<noteq> 0"
  proof
    assume "n - 1 = 0"
    then have "unat (n - 1) = unat (0 :: 64 word)" by (simp only:)
    then show False using r(1) by simp
  qed
  then show ?thesis using r by (simp add: base32size_groups5 groups5_two)
qed

text \<open>
  Claim C7.  For a binner with \<open>bins \<ge> 1\<close> and every key, \<open>bin\<close> returns a string of
  length exactly \<open>base32size(bins - 1)\<close>; the length is 1 for \<open>bins\<close> from 1 to 32 and 2 for
  \<open>bins\<close> from 33 to 1024.  \<open>base32size(0)\<close> is 1, and for \<open>v > 0\<close> it is the number of
  base-32 digits of \<open>v\<close>: \<open>32^(n-1) \<le> v < 32^n\<close>.  The digest has the 32 bytes of SHA-256.
\<close>

theorem hashBinner_bin_length:
  assumes bins: "0 <s numBins b"
    and digest: "\<forall>key msg. length (H key msg) = 32"
  shows "\<exists>s. hashBinner_bin H b k = Inr s \<and> length s = base32size (numBins b - 1) \<and>
             (unat (numBins b) \<le> 32 \<longrightarrow> length s = 1) \<and>
             (33 \<le> unat (numBins b) \<and> unat (numBins b) \<le> 1024 \<longrightarrow> length s = 2) \<and>
             base32size 0 = 1 \<and>
             (\<forall>v. v \<noteq> 0 \<longrightarrow> 32 ^ (base32size v - 1) \<le> unat v \<and> unat v < 32 ^ base32size v)"
proof -
  have nz: "numBins b \<noteq> 0" using bins by auto
  define msg where "msg = Join [Domain k, Country k, Format (Date k)] (CHR '';'')"
  have "\<not> length (H (salt b) msg) < 8" using digest by simp
  then obtain h where h: "Uint64 (H (salt b) msg) = Inr h"
    by (simp add: Uint64_def)
  define s where
    "s = bin_loop (base32size (numBins b - 1)) (h mod numBins b)
           (replicate (base32size (numBins b - 1)) (CHR 0x00))"
  have res: "hashBinner_bin H b k = Inr s"
    unfolding hashBinner_bin_def Let_def msg_def [symmetric] h s_def using nz by simp
  have len: "length s = base32size (numBins b - 1)"
    by (simp add: s_def length_bin_loop)
  have c: "\<forall>v :: 64 word. v \<noteq> 0 \<longrightarrow>
             32 ^ (base32size v - 1) \<le> unat v \<and> unat v < 32 ^ base32size v"
  proof (intro allI impI)
    fix v :: "64 word" assume "v \<noteq> 0"
    then have "unat v \<noteq> 0" by (simp add: unat_eq_0)
    then show "32 ^ (base32size v - 1) \<le> unat v \<and> unat v < 32 ^ base32size v"
      using \<open>v \<noteq> 0\<close> groups5_bounds [of "unat v"] by (simp add: base32size_groups5)
  qed
  have "base32size 0 = 1" by (simp add: base32size_def)
  then show ?thesis
    using res len c base32size_le_32 [OF nz] base32size_le_1024 [of "numBins b"] by auto
qed

theorem hashBinner_bin_length_witness:
  "0 <s numBins \<lparr>salt = replicate 16 0, numBins = 32\<rparr> \<and>
   length (testDigest (replicate 16 0) ''d1.example;zz;14131211'') = 32 \<and>
   (\<exists>s. hashBinner_bin testDigest \<lparr>salt = replicate 16 0, numBins = 32\<rparr> testKey = Inr s \<and>
        length s = 1)"
proof -
  let ?b = "\<lparr>salt = replicate 16 0, numBins = 32 :: 64 word\<rparr>"
  have h1: "0 <s numBins ?b"
    by (simp add: word_sless_alt)
  have h2: "\<forall>key msg. length (testDigest key msg) = 32" by (simp add: testDigest_def)
  have le: "unat (numBins ?b) \<le> 32" by simp
  from hashBinner_bin_length [OF h1 h2, of testKey]
  obtain s where s: "hashBinner_bin testDigest ?b testKey = Inr s"
    and "unat (numBins ?b) \<le> 32 \<longrightarrow> length s = 1"
    by blast
  then have "length s = 1" using le by blast
  with s have "\<exists>s. hashBinner_bin testDigest ?b testKey = Inr s \<and> length s = 1"
    by blast
  moreover have "length (testDigest (replicate 16 0) ''d1.example;zz;14131211'') = 32"
    using h2 by blast
  ultimately show ?thesis using h1 by blast
qed

lemma newHashBinner_full_file:
  assumes "saltsize \<le> length file" "\<not> n \<le>s 0"
  shows "newHashBinner src file n =
           Inr (\<lparr>salt = take saltsize file, numBins = n\<rparr>, drop saltsize file)"
  using assms by (simp add: newHashBinner_def Let_def min_def)

text \<open>
  The first construction on an empty file writes the salt it drew; a later construction
  on the file that was written reads the same salt and draws nothing.
\<close>

lemma newHashBinner_reuse:
  assumes "newHashBinner src1 [] n = Inr (b1, file1)"
  shows "newHashBinner src2 file1 n = Inr (b1, [])"
proof -
  have n: "\<not> n \<le>s 0" using assms by (auto simp: newHashBinner_def split: if_splits)
  obtain f where f: "src1 = RandomBytes f"
    using assms n by (cases src1) (auto simp: newHashBinner_def randRead_def saltsize_def)
  have "b1 = \<lparr>salt = map f [0..<saltsize], numBins = n\<rparr>" "file1 = map f [0..<saltsize]"
    using assms n f by (auto simp: newHashBinner_def randRead_def Let_def saltsize_def)
  then show ?thesis using n by (simp add: newHashBinner_full_file)
qed

text \<open>
  Claim C9.  Two binners constructed from streams that hold the same 16 salt bytes, with
  the same number of bins, return the same bin for every key: nothing else that the
  construction reads (the random source, what follows the salt in the stream) reaches the
  bin.
\<close>

theorem hashBinner_bin_deterministic:
  assumes "newHashBinner src1 file1 n = Inr (b1, rest1)"
    and "newHashBinner src2 file2 n = Inr (b2, rest2)"
    and "saltsize \<le> length file1" "take saltsize file1 = take saltsize file2"
  shows "hashBinner_bin H b1 k = hashBinner_bin H b2 k"
proof -
  have n: "\<not> n \<le>s 0" using assms(1) by (auto simp: newHashBinner_def split: if_splits)
  have "length (take saltsize file2) = saltsize"
    using assms(3,4) by (metis length_take min.absorb2)
  then have l2: "saltsize \<le> length file2" by simp
  have "b1 = \<lparr>salt = take saltsize file1, numBins = n\<rparr>"
    using assms(1) newHashBinner_full_file [OF assms(3) n] by simp
  moreover have "b2 = \<lparr>salt = take saltsize file2, numBins = n\<rparr>"
    using assms(2) newHashBinner_full_file [OF l2 n] by simp
  ultimately show ?thesis using assms(4) by simp
qed

theorem hashBinner_bin_deterministic_witness:
  "newHashBinner RandomFails testSalt 32 = Inr (\<lparr>salt = testSalt, numBins = 32\<rparr>, []) \<and>
   newHashBinner (RandomBytes testBytes) (testSalt @ [99]) 32 =
     Inr (\<lparr>salt = testSalt, numBins = 32\<rparr>, [99]) \<and>
   saltsize \<le> length testSalt \<and>
   hashBinner_bin testDigest \<lparr>salt = testSalt, numBins = 32\<rparr> testKey =
     hashBinner_bin testDigest \<lparr>salt = testSalt, numBins = 32\<rparr> testKey"
proof -
  have n: "\<not> (32 :: 64 word) \<le>s 0" by (simp add: word_sle_eq)
  have l1: "saltsize \<le> length testSalt" by (simp add: saltsize_def testSalt_def)
  have l2: "saltsize \<le> length (testSalt @ [99])" by (simp add: saltsize_def testSalt_def)
  have t: "take saltsize testSalt = take saltsize (testSalt @ [99])"
    by (simp add: saltsize_def testSalt_def)
  have c1: "newHashBinner RandomFails testSalt 32 = Inr (\<lparr>salt = testSalt, numBins = 32\<rparr>, [])"
    using newHashBinner_full_file [OF l1 n] by (simp add: saltsize_def testSalt_def)
  have c2: "newHashBinner (RandomBytes testBytes) (testSalt @ [99]) 32 =
              Inr (\<lparr>salt = testSalt, numBins = 32\<rparr>, [99])"
    using newHashBinner_full_file [OF l2 n] by (simp add: saltsize_def testSalt_def)
  show ?thesis
    using c1 c2 l1 hashBinner_bin_deterministic [OF c1 c2 l1 t, of testDigest testKey]
    by (intro conjI)
qed

end
